theory Spec2Isabelle
  imports Main "HOL-Library.Sublist"
begin

section \<open>Texts\<close>

text \<open>
  The script \<^verbatim>\<open>fix_email_parsers.py\<close> reads three Rust sources, rewrites each with a fixed
  sequence of \<^verbatim>\<open>re.sub\<close> and \<^verbatim>\<open>str.replace\<close> calls and writes the result back.
  A Python \<^verbatim>\<open>str\<close> is a sequence of Unicode code points; it is modelled as the list of
  these code points.
\<close>

type_synonym pystr = "nat list"

text \<open>
  String constants of the source are written as ASCII literals. An Isabelle string literal
  cannot contain a backslash, so in every literal below the character \<^verbatim>\<open>~\<close> (which occurs
  nowhere in the source) stands for the backslash, code point 92. The literals are the
  \<^emph>\<open>values\<close> of the Python literals: a raw literal \<^verbatim>\<open>r'...'\<close> as it is written, a plain
  literal after Python has read its escapes (a doubled backslash becomes one backslash).
\<close>

definition esc :: "string \<Rightarrow> pystr" where
  "esc s = map (\<lambda>c. if c = CHR ''~'' then 92 else of_char c) s"

text \<open>
  The characters that \<^verbatim>\<open>\s\<close> matches in a \<^verbatim>\<open>str\<close> pattern: the Unicode white space
  of \<^verbatim>\<open>str.isspace\<close>.
\<close>

definition is_space :: "nat \<Rightarrow> bool" where
  "is_space c \<longleftrightarrow> c \<in> set [9, 10, 11, 12, 13, 28, 29, 30, 31, 32, 133, 160, 5760,
     8192, 8193, 8194, 8195, 8196, 8197, 8198, 8199, 8200, 8201, 8202,
     8232, 8233, 8239, 8287, 12288]"

section \<open>Regular expressions: the fragment the script uses\<close>

text \<open>
  Every pattern of the script is a sequence of literal characters (most of them escaped),
  the item \<^verbatim>\<open>\s+\<close> and, in the two header patterns, two capturing groups that are not
  nested and carry no quantifier. A compiled pattern is a list of tokens.
\<close>

datatype tok = Lit nat | Spaces | Open | Close

datatype re_error =
    Unbalanced_parenthesis
  | Missing_parenthesis
  | Bad_escape
  | Invalid_group_reference
  | Unsupported

text \<open>
  \<open>re_parse\<close> follows \<^verbatim>\<open>re.compile\<close> on this fragment; the flag says whether a group is
  open. A closing parenthesis with no group open and a group left open at the end are the
  errors \<^verbatim>\<open>re.error\<close> reports as "unbalanced parenthesis" and "missing ), unterminated
  subpattern". Syntax outside the fragment (classes other than \<^verbatim>\<open>\s\<close>, quantifiers other
  than the \<^verbatim>\<open>+\<close> of \<^verbatim>\<open>\s+\<close>, alternation, sets, anchors, nested groups) is answered
  with \<open>Unsupported\<close>. This is not an exception of \<^verbatim>\<open>re\<close>: it marks a pattern about
  which the model makes no statement, and no pattern of the script gets this answer (the
  lemmas \<open>header_compiled\<close> to \<open>filter_compiled\<close> below). The flag
  \<^verbatim>\<open>re.DOTALL\<close> of the header rules only changes the meaning of an unescaped dot, which no
  pattern of the script contains.
\<close>

definition is_alnum :: "nat \<Rightarrow> bool" where
  "is_alnum c \<longleftrightarrow> (48 \<le> c \<and> c \<le> 57) \<or> (65 \<le> c \<and> c \<le> 90) \<or> (97 \<le> c \<and> c \<le> 122)"

definition is_special :: "nat \<Rightarrow> bool" where
  "is_special c \<longleftrightarrow> c \<in> set (esc ''.^$*+?{[|'')"

definition cons_ok :: "'a \<Rightarrow> 'e + 'a list \<Rightarrow> 'e + 'a list" where
  "cons_ok x r = (case r of Inl e \<Rightarrow> Inl e | Inr xs \<Rightarrow> Inr (x # xs))"

fun re_parse :: "bool \<Rightarrow> pystr \<Rightarrow> re_error + tok list" where
  "re_parse g [] = (if g then Inl Missing_parenthesis else Inr [])"
| "re_parse g (c # cs) =
     (if c = 92 then
        (case cs of
           [] \<Rightarrow> Inl Bad_escape
         | d # ds \<Rightarrow>
             if d = 115 then
               (case ds of
                  [] \<Rightarrow> Inl Unsupported
                | p # es \<Rightarrow> if p = 43 then cons_ok Spaces (re_parse g es) else Inl Unsupported)
             else if is_alnum d then Inl Unsupported
             else cons_ok (Lit d) (re_parse g ds))
      else if c = 40 then (if g then Inl Unsupported else cons_ok Open (re_parse True cs))
      else if c = 41 then (if g then cons_ok Close (re_parse False cs) else Inl Unbalanced_parenthesis)
      else if is_special c then Inl Unsupported
      else cons_ok (Lit c) (re_parse g cs))"

definition re_compile :: "pystr \<Rightarrow> re_error + tok list" where
  "re_compile pat = re_parse False pat"

subsection \<open>Matching at a position\<close>

text \<open>
  \<open>rx_match p s\<close> is \<^verbatim>\<open>p.match(s)\<close>: the match of the pattern at the start of \<open>s\<close>, found
  by backtracking. The result lists what each token consumed. \<^verbatim>\<open>\s+\<close> is greedy: it first
  takes the whole run of white space and gives characters back one at a time, down to one.
\<close>

primrec try_spaces :: "(pystr \<Rightarrow> pystr list option) \<Rightarrow> pystr \<Rightarrow> nat \<Rightarrow> pystr list option" where
  "try_spaces k s 0 = None"
| "try_spaces k s (Suc n) =
     (case k (drop (Suc n) s) of
        Some ps \<Rightarrow> Some (take (Suc n) s # ps)
      | None \<Rightarrow> try_spaces k s n)"

primrec rx_match :: "tok list \<Rightarrow> pystr \<Rightarrow> pystr list option" where
  "rx_match [] s = Some []"
| "rx_match (t # ts) s =
     (case t of
        Lit c \<Rightarrow>
          (case s of
             [] \<Rightarrow> None
           | x # xs \<Rightarrow> if x = c then map_option ((#) [x]) (rx_match ts xs) else None)
      | Spaces \<Rightarrow> try_spaces (rx_match ts) s (length (takeWhile is_space s))
      | Open \<Rightarrow> map_option ((#) []) (rx_match ts s)
      | Close \<Rightarrow> map_option ((#) []) (rx_match ts s))"

text \<open>The text of each group, in the order the groups open.\<close>

fun groups :: "tok list \<Rightarrow> pystr list \<Rightarrow> pystr option \<Rightarrow> pystr list" where
  "groups (Open # ts) (p # ps) cur = groups ts ps (Some [])"
| "groups (Close # ts) (p # ps) cur = (case cur of Some g \<Rightarrow> g # groups ts ps None | None \<Rightarrow> groups ts ps None)"
| "groups (t # ts) (p # ps) cur = groups ts ps (map_option (\<lambda>g. g @ p) cur)"
| "groups ts ps cur = []"

subsection \<open>Replacement templates\<close>

text \<open>
  \<^verbatim>\<open>re.sub\<close> reads the replacement string as a template: backslash and a digit is the
  text of a group, backslash and \<^verbatim>\<open>n\<close> is a line feed, two backslashes are one. A reference
  to a group the pattern does not have is an error, raised before any matching; the reader
  looks one item ahead, so a single backslash at the very end is reported before a wrong
  group number just in front of it. Other escapes (named groups, octal numbers, \<^verbatim>\<open>\t\<close> and
  the like) are outside the fragment and are answered with \<open>Unsupported\<close>, as for patterns.
\<close>

datatype titem = TChr nat | TGrp nat

fun parse_template :: "nat \<Rightarrow> pystr \<Rightarrow> re_error + titem list" where
  "parse_template n [] = Inr []"
| "parse_template n (c # cs) =
     (if c = 92 then
        (case cs of
           [] \<Rightarrow> Inl Bad_escape
         | d # ds \<Rightarrow>
             if d = 110 then cons_ok (TChr 10) (parse_template n ds)
             else if d = 92 then cons_ok (TChr 92) (parse_template n ds)
             else if 49 \<le> d \<and> d \<le> 57 then
               (if ds = [92] then Inl Bad_escape
                else if (case ds of [] \<Rightarrow> False | e # es \<Rightarrow> 48 \<le> e \<and> e \<le> 57) then Inl Unsupported
                else if d - 48 \<le> n then cons_ok (TGrp (d - 48)) (parse_template n ds)
                else Inl Invalid_group_reference)
             else Inl Unsupported)
      else cons_ok (TChr c) (parse_template n cs))"

fun render :: "titem list \<Rightarrow> pystr list \<Rightarrow> pystr" where
  "render [] gs = []"
| "render (TChr c # is) gs = c # render is gs"
| "render (TGrp k # is) gs = (if k - 1 < length gs then gs ! (k - 1) else []) @ render is gs"

section \<open>Replacing every match\<close>

text \<open>
  \<^verbatim>\<open>re.sub\<close> and \<^verbatim>\<open>str.replace\<close> walk the text from left to right. At each position they
  look for a match that starts there; a match is replaced and the walk goes on behind it, and
  where there is none the character is copied. The walk is recorded as a list of pieces, as
  \<^verbatim>\<open>re.sub\<close> joins a list of slices and replacements. An empty match is replaced and the
  character behind it copied.
\<close>

datatype piece = Copy nat | Subst pystr pystr

type_synonym matcher = "pystr \<Rightarrow> (pystr \<times> pystr) option"

fun scan :: "matcher \<Rightarrow> pystr \<Rightarrow> piece list" where
  "scan M [] = (case M [] of None \<Rightarrow> [] | Some (m, r) \<Rightarrow> [Subst [] r])"
| "scan M (x # xs) =
     (case M (x # xs) of
        None \<Rightarrow> Copy x # scan M xs
      | Some (m, r) \<Rightarrow>
          if m = [] then Subst [] r # Copy x # scan M xs
          else Subst m r # scan M (drop (length m - 1) xs))"

fun piece_src :: "piece \<Rightarrow> pystr" where
  "piece_src (Copy x) = [x]"
| "piece_src (Subst m r) = m"

fun piece_dst :: "piece \<Rightarrow> pystr" where
  "piece_dst (Copy x) = [x]"
| "piece_dst (Subst m r) = r"

fun is_subst :: "piece \<Rightarrow> bool" where
  "is_subst (Copy x) = False"
| "is_subst (Subst m r) = True"

definition src :: "piece list \<Rightarrow> pystr" where
  "src ps = concat (map piece_src ps)"

definition dst :: "piece list \<Rightarrow> pystr" where
  "dst ps = concat (map piece_dst ps)"

definition n_subst :: "piece list \<Rightarrow> nat" where
  "n_subst ps = length (filter is_subst ps)"

text \<open>The matcher of a compiled pattern with its template, and of a literal.\<close>

definition rx_rule :: "tok list \<Rightarrow> titem list \<Rightarrow> matcher" where
  "rx_rule p t s = (case rx_match p s of
      None \<Rightarrow> None
    | Some ps \<Rightarrow> Some (concat ps, render t (groups p ps None)))"

definition lit_rule :: "pystr \<Rightarrow> pystr \<Rightarrow> matcher" where
  "lit_rule old new s = (if prefix old s then Some (old, new) else None)"

text \<open>
  \<^verbatim>\<open>re.subn(pattern, repl, string)\<close> compiles the pattern and the template when it is
  called and returns the new text with the number of replacements; \<^verbatim>\<open>re.sub\<close> is its
  first component. \<^verbatim>\<open>string.replace(old, new)\<close> cannot fail.
\<close>

definition re_subn :: "pystr \<Rightarrow> pystr \<Rightarrow> pystr \<Rightarrow> re_error + (pystr \<times> nat)" where
  "re_subn pat repl s =
     (case re_compile pat of
        Inl e \<Rightarrow> Inl e
      | Inr p \<Rightarrow>
          (case parse_template (length (filter ((=) Open) p)) repl of
             Inl e \<Rightarrow> Inl e
           | Inr t \<Rightarrow> Inr (dst (scan (rx_rule p t) s), n_subst (scan (rx_rule p t) s))))"

definition re_sub :: "pystr \<Rightarrow> pystr \<Rightarrow> pystr \<Rightarrow> re_error + pystr" where
  "re_sub pat repl s = (case re_subn pat repl s of Inl e \<Rightarrow> Inl e | Inr (t, n) \<Rightarrow> Inr t)"

definition str_replace :: "pystr \<Rightarrow> pystr \<Rightarrow> pystr \<Rightarrow> pystr" where
  "str_replace old new s = dst (scan (lit_rule old new) s)"

definition str_replace_count :: "pystr \<Rightarrow> pystr \<Rightarrow> pystr \<Rightarrow> nat" where
  "str_replace_count old new s = n_subst (scan (lit_rule old new) s)"

section \<open>The script\<close>

subsection \<open>Its string constants\<close>

definition header_pattern :: pystr where
  \<open>header_pattern = esc ''(fn format_email_header~(&self, label: &str, value: &str~) -> TextRun ~{~s+TextRun ~{~s+text: format!~("~{}: ~{}~}~~n", label, value~),~s+style: TextStyle ~{~s+bold: label == "From" ~|~| label == "To" ~|~| label == "Subject",~s+~.~.Default::default~(~)~s+~},)~s+(~})''\<close>

definition header_repl :: pystr where
  \<open>header_repl = esc ''~1~n            bounds: None,~n            char_positions: None,~n        ~2''\<close>

definition newline_run_pattern :: pystr where
  \<open>newline_run_pattern = esc ''text_runs~.push~(TextRun ~{~s+text: "~~n"~.to_string~(~),~s+style: Default::default~(~),~s+~}~);''\<close>

definition newline_run_repl :: pystr where
  \<open>newline_run_repl = esc (''text_runs.push(TextRun {\<newline>''
      @ ''            text: "~n".to_string(),\<newline>''
      @ ''            style: Default::default(),\<newline>''
      @ ''            bounds: None,\<newline>''
      @ ''            char_positions: None,\<newline>''
      @ ''        });'')\<close>

definition body_run_pattern :: pystr where
  \<open>body_run_pattern = esc ''text_runs~.push~(TextRun ~{~s+text: body_text,~s+style: Default::default~(~),~s+~}~);''\<close>

definition body_run_repl :: pystr where
  \<open>body_run_repl = esc (''text_runs.push(TextRun {\<newline>''
      @ ''            text: body_text,\<newline>''
      @ ''            style: Default::default(),\<newline>''
      @ ''            bounds: None,\<newline>''
      @ ''            char_positions: None,\<newline>''
      @ ''        });'')\<close>

definition block_pattern :: pystr where
  \<open>block_pattern = esc ''let text_block = TextBlock ~{~s+runs: text_runs,~s+bounds: None,~s+~};''\<close>

definition mbox_block_repl :: pystr where
  \<open>mbox_block_repl = esc (''let text_block = TextBlock {\<newline>''
      @ ''                            runs: text_runs,\<newline>''
      @ ''                            bounds: prism_core::document::Rect {\<newline>''
      @ ''                                x: 0.0,\<newline>''
      @ ''                                y: 0.0,\<newline>''
      @ ''                                width: Dimensions::LETTER.width,\<newline>''
      @ ''                                height: Dimensions::LETTER.height,\<newline>''
      @ ''                            },\<newline>''
      @ ''                            paragraph_style: None,\<newline>''
      @ ''                        };'')\<close>

definition addr_ref_old :: pystr where
  \<open>addr_ref_old = esc ''addr.address.as_ref().unwrap_or(&String::new())''\<close>

definition addr_new :: pystr where
  \<open>addr_new = esc ''addr.address.as_ref().map(|a| a.to_string()).unwrap_or_default()''\<close>

definition addr_clone_old :: pystr where
  \<open>addr_clone_old = esc ''addr.address.clone().unwrap_or_default()''\<close>

definition warn_import_old :: pystr where
  \<open>warn_import_old = esc ''use tracing::{debug, info, warn};''\<close>

definition warn_import_new :: pystr where
  \<open>warn_import_new = esc ''use tracing::{debug, info};''\<close>

definition clone_run_pattern :: pystr where
  \<open>clone_run_pattern = esc ''text_runs~.push~(TextRun ~{~s+text: body_text~.clone~(~),~s+style: Default::default~(~),~s+~}~);''\<close>

definition clone_run_repl :: pystr where
  \<open>clone_run_repl = esc (''text_runs.push(TextRun {\<newline>''
      @ ''            text: body_text.clone(),\<newline>''
      @ ''            style: Default::default(),\<newline>''
      @ ''            bounds: None,\<newline>''
      @ ''            char_positions: None,\<newline>''
      @ ''        });'')\<close>

definition msg_block_repl :: pystr where
  \<open>msg_block_repl = esc (''let text_block = TextBlock {\<newline>''
      @ ''            runs: text_runs,\<newline>''
      @ ''            bounds: prism_core::document::Rect {\<newline>''
      @ ''                x: 0.0,\<newline>''
      @ ''                y: 0.0,\<newline>''
      @ ''                width: Dimensions::LETTER.width,\<newline>''
      @ ''                height: Dimensions::LETTER.height,\<newline>''
      @ ''            },\<newline>''
      @ ''            paragraph_style: None,\<newline>''
      @ ''        };'')\<close>

definition field_pattern :: pystr where
  \<open>field_pattern = esc ''(fn format_field~(&self, label: &str, value: &str, bold: bool~) -> TextRun ~{~s+TextRun ~{~s+text: format!~("~{}: ~{}~}~~n", label, value~),~s+style: TextStyle ~{~s+bold,~s+~.~.Default::default~(~)~s+~},)~s+(~})''\<close>

definition note_title_pattern :: pystr where
  \<open>note_title_pattern = esc ''text_runs~.push~(TextRun ~{~s+text: "~~nNote:~~n"~.to_string~(~),~s+style: TextStyle ~{~s+bold: true,~s+~.~.Default::default~(~)~s+~},~s+~}~);''\<close>

definition note_title_repl :: pystr where
  \<open>note_title_repl = esc (''text_runs.push(TextRun {\<newline>''
      @ ''                text: "~nNote:~n".to_string(),\<newline>''
      @ ''                style: TextStyle {\<newline>''
      @ ''                    bold: true,\<newline>''
      @ ''                    ..Default::default()\<newline>''
      @ ''                },\<newline>''
      @ ''                bounds: None,\<newline>''
      @ ''                char_positions: None,\<newline>''
      @ ''            });'')\<close>

definition note_run_pattern :: pystr where
  \<open>note_run_pattern = esc ''text_runs~.push~(TextRun ~{~s+text: format!~("~{}~}~~n", note~),~s+style: Default::default~(~),~s+~}~);''\<close>

definition note_run_repl :: pystr where
  \<open>note_run_repl = esc (''text_runs.push(TextRun {\<newline>''
      @ ''                text: format!("{}~n", note),\<newline>''
      @ ''                style: Default::default(),\<newline>''
      @ ''                bounds: None,\<newline>''
      @ ''                char_positions: None,\<newline>''
      @ ''            });'')\<close>

definition vcf_block_repl :: pystr where
  \<open>vcf_block_repl = esc (''let text_block = TextBlock {\<newline>''
      @ ''                runs: text_runs,\<newline>''
      @ ''                bounds: prism_core::document::Rect {\<newline>''
      @ ''                    x: 0.0,\<newline>''
      @ ''                    y: 0.0,\<newline>''
      @ ''                    width: Dimensions::LETTER.width,\<newline>''
      @ ''                    height: Dimensions::LETTER.height,\<newline>''
      @ ''                },\<newline>''
      @ ''                paragraph_style: None,\<newline>''
      @ ''            };'')\<close>

definition filter_pattern :: pystr where
  \<open>filter_pattern = esc ''~.filter~(~|s~| !s~.is_empty~(~)~)''\<close>

definition filter_repl :: pystr where
  \<open>filter_repl = esc ''.filter(|s: &&str| !s.is_empty())''\<close>

subsection \<open>The three text transformations\<close>

text \<open>
  Each routine rebinds \<^verbatim>\<open>content\<close> call after call; an exception of \<^verbatim>\<open>re.sub\<close> ends
  the routine at that call.
\<close>

definition and_then :: "'e + 'a \<Rightarrow> ('a \<Rightarrow> 'e + 'b) \<Rightarrow> 'e + 'b" where
  "and_then r f = (case r of Inl e \<Rightarrow> Inl e | Inr x \<Rightarrow> f x)"

definition fix_mbox_text :: "pystr \<Rightarrow> re_error + pystr" where
  "fix_mbox_text content =
     and_then (re_sub header_pattern header_repl content) (\<lambda>content.
     and_then (re_sub newline_run_pattern newline_run_repl content) (\<lambda>content.
     and_then (re_sub body_run_pattern body_run_repl content) (\<lambda>content.
     and_then (re_sub block_pattern mbox_block_repl content) (\<lambda>content.
     Inr (str_replace addr_clone_old addr_new
            (str_replace addr_ref_old addr_new content))))))"

definition fix_msg_text :: "pystr \<Rightarrow> re_error + pystr" where
  "fix_msg_text content =
     and_then (Inr (str_replace warn_import_old warn_import_new content)) (\<lambda>content.
     and_then (re_sub header_pattern header_repl content) (\<lambda>content.
     and_then (re_sub newline_run_pattern newline_run_repl content) (\<lambda>content.
     and_then (re_sub clone_run_pattern clone_run_repl content) (\<lambda>content.
     re_sub block_pattern msg_block_repl content))))"

definition fix_vcf_text :: "pystr \<Rightarrow> re_error + pystr" where
  "fix_vcf_text content =
     and_then (re_sub field_pattern header_repl content) (\<lambda>content.
     and_then (re_sub note_title_pattern note_title_repl content) (\<lambda>content.
     and_then (re_sub note_run_pattern note_run_repl content) (\<lambda>content.
     and_then (re_sub block_pattern vcf_block_repl content) (\<lambda>content.
     re_sub filter_pattern filter_repl content))))"

subsection \<open>Files\<close>

text \<open>
  A file is a sequence of bytes (numbers below 256). The routines open their file in text
  mode with \<^verbatim>\<open>encoding='utf-8'\<close> and the default \<^verbatim>\<open>newline=None\<close>.

  Reading decodes the bytes as UTF-8, strictly: only the shortest encoding of a code point
  that is no surrogate is accepted, anything else is a \<^verbatim>\<open>UnicodeDecodeError\<close>. The decoder
  below computes the code point a sequence stands for and accepts the sequence when it is
  the encoding of that code point. The decoded text then has its line ends translated
  (universal newlines): carriage return with line feed, and a carriage return alone, become
  a line feed.
\<close>

type_synonym byte = nat

definition scalar :: "nat \<Rightarrow> bool" where
  "scalar c \<longleftrightarrow> c < 55296 \<or> (57344 \<le> c \<and> c < 1114112)"

definition utf8_char :: "nat \<Rightarrow> byte list" where
  "utf8_char c =
     (if c < 128 then [c]
      else if c < 2048 then [192 + c div 64, 128 + c mod 64]
      else if c < 65536 then [224 + c div 4096, 128 + c div 64 mod 64, 128 + c mod 64]
      else [240 + c div 262144, 128 + c div 4096 mod 64, 128 + c div 64 mod 64, 128 + c mod 64])"

definition utf8_width :: "byte \<Rightarrow> nat" where
  "utf8_width b =
     (if b < 128 then 1
      else if 192 \<le> b \<and> b < 224 then 2
      else if 224 \<le> b \<and> b < 240 then 3
      else if 240 \<le> b \<and> b < 248 then 4
      else 0)"

fun utf8_point :: "byte list \<Rightarrow> nat" where
  "utf8_point [a] = a"
| "utf8_point [a, b] = (a - 192) * 64 + (b - 128)"
| "utf8_point [a, b, c] = (a - 224) * 4096 + (b - 128) * 64 + (c - 128)"
| "utf8_point [a, b, c, d] = (a - 240) * 262144 + (b - 128) * 4096 + (c - 128) * 64 + (d - 128)"
| "utf8_point bs = 0"

fun utf8_decode :: "byte list \<Rightarrow> pystr option" where
  "utf8_decode [] = Some []"
| "utf8_decode (b # bs) =
     (if 0 < utf8_width b
         \<and> scalar (utf8_point (b # take (utf8_width b - 1) bs))
         \<and> utf8_char (utf8_point (b # take (utf8_width b - 1) bs)) = b # take (utf8_width b - 1) bs
      then map_option ((#) (utf8_point (b # take (utf8_width b - 1) bs)))
             (utf8_decode (drop (utf8_width b - 1) bs))
      else None)"

fun universal_newlines :: "pystr \<Rightarrow> pystr" where
  "universal_newlines (c # d # s) =
     (if c = 13 \<and> d = 10 then 10 # universal_newlines s
      else if c = 13 then 10 # universal_newlines (d # s)
      else c # universal_newlines (d # s))"
| "universal_newlines [c] = (if c = 13 then [10] else [c])"
| "universal_newlines [] = []"

text \<open>
  Writing translates every line feed of the text into the line separator of the platform
  (\<^verbatim>\<open>os.linesep\<close>: a line feed, or carriage return and line feed) and encodes the result
  as UTF-8; a text that holds a surrogate cannot be encoded (\<^verbatim>\<open>UnicodeEncodeError\<close>).
\<close>

datatype line_end = LF | CRLF

fun linesep :: "line_end \<Rightarrow> pystr" where
  "linesep LF = [10]"
| "linesep CRLF = [13, 10]"

definition write_newlines :: "line_end \<Rightarrow> pystr \<Rightarrow> pystr" where
  "write_newlines e s = concat (map (\<lambda>c. if c = 10 then linesep e else [c]) s)"

definition utf8_encode :: "pystr \<Rightarrow> byte list option" where
  "utf8_encode s = (if list_all scalar s then Some (concat (map utf8_char s)) else None)"

text \<open>
  The file store maps a path to the bytes of a file. What the operating system may refuse
  is the environment's choice, the argument \<open>fault\<close> of a routine: the file cannot be opened
  or read (\<open>Read_fails\<close>), it cannot be opened for writing (\<open>Open_for_write_fails\<close>), or
  writing fails when \<open>k\<close> bytes have reached the file (\<open>Write_fails k\<close>). Opening a file
  with mode \<^verbatim>\<open>'w'\<close> empties it, so after a failed write the file holds the \<open>k\<close> bytes and
  what it held before is gone; when the file cannot be opened it stays as it was.
\<close>

datatype fault = Read_fails | Open_for_write_fails | Write_fails nat

datatype error = Regex re_error | File_not_found | Os_error | Decode_error | Encode_error

record world =
  files :: "string \<rightharpoonup> byte list"
  printed :: "string list"

definition read_text :: "fault option \<Rightarrow> string \<Rightarrow> world \<Rightarrow> error + pystr" where
  "read_text fault path w =
     (if fault = Some Read_fails then Inl Os_error
      else case files w path of
        None \<Rightarrow> Inl File_not_found
      | Some bs \<Rightarrow>
          (case utf8_decode bs of
             None \<Rightarrow> Inl Decode_error
           | Some t \<Rightarrow> Inr (universal_newlines t)))"

definition write_text ::
  "line_end \<Rightarrow> fault option \<Rightarrow> string \<Rightarrow> pystr \<Rightarrow> world \<Rightarrow> error option \<times> world" where
  "write_text e fault path t w =
     (if fault = Some Open_for_write_fails then (Some Os_error, w)
      else case utf8_encode (write_newlines e t) of
        None \<Rightarrow> (Some Encode_error, w\<lparr>files := (files w)(path \<mapsto> [])\<rparr>)
      | Some bs \<Rightarrow>
          (case fault of
             Some (Write_fails k) \<Rightarrow> (Some Os_error, w\<lparr>files := (files w)(path \<mapsto> take k bs)\<rparr>)
           | _ \<Rightarrow> (None, w\<lparr>files := (files w)(path \<mapsto> bs)\<rparr>)))"

definition print_line :: "string \<Rightarrow> world \<Rightarrow> world" where
  "print_line l w = w\<lparr>printed := printed w @ [l]\<rparr>"

text \<open>
  A routine reads its file, transforms the text, writes the file and prints a line. An
  exception ends it at once: nothing behind the raising statement is executed.
\<close>

definition fix_file ::
  "string \<Rightarrow> (pystr \<Rightarrow> re_error + pystr) \<Rightarrow> string \<Rightarrow> line_end \<Rightarrow> fault option \<Rightarrow> world
     \<Rightarrow> error option \<times> world" where
  "fix_file path transform message e fault w =
     (case read_text fault path w of
        Inl err \<Rightarrow> (Some err, w)
      | Inr content \<Rightarrow>
          (case transform content of
             Inl err \<Rightarrow> (Some (Regex err), w)
           | Inr content' \<Rightarrow>
               (case write_text e fault path content' w of
                  (Some err, w') \<Rightarrow> (Some err, w')
                | (None, w') \<Rightarrow> (None, print_line message w'))))"

definition mbox_path :: string where
  "mbox_path = ''crates/prism-parsers/src/email/mbox.rs''"

definition msg_path :: string where
  "msg_path = ''crates/prism-parsers/src/email/msg.rs''"

definition vcf_path :: string where
  "vcf_path = ''crates/prism-parsers/src/email/vcf.rs''"

definition fix_mbox :: "line_end \<Rightarrow> fault option \<Rightarrow> world \<Rightarrow> error option \<times> world" where
  "fix_mbox = fix_file mbox_path fix_mbox_text ''Fixed mbox.rs''"

definition fix_msg :: "line_end \<Rightarrow> fault option \<Rightarrow> world \<Rightarrow> error option \<times> world" where
  "fix_msg = fix_file msg_path fix_msg_text ''Fixed msg.rs''"

definition fix_vcf :: "line_end \<Rightarrow> fault option \<Rightarrow> world \<Rightarrow> error option \<times> world" where
  "fix_vcf = fix_file vcf_path fix_vcf_text ''Fixed vcf.rs''"

section \<open>The compiled rules\<close>

text \<open>
  What \<open>re_compile\<close> and \<open>parse_template\<close> return for the constants of the script
  (proved below): the token list of each pattern, and the text each template without group
  references stands for. In these texts the two characters backslash, \<^verbatim>\<open>n\<close> that the
  plain literals of the script contain have become a line feed.
\<close>

definition lits :: "string \<Rightarrow> tok list" where
  "lits s = map Lit (esc s)"

definition header_group :: "tok list" where
  \<open>header_group =
     lits ''fn format_email_header(&self, label: &str, value: &str) -> TextRun {''
     @ [Spaces]
     @ lits ''TextRun {''
     @ [Spaces]
     @ lits ''text: format!("{}: {}}~n", label, value),''
     @ [Spaces]
     @ lits ''style: TextStyle {''
     @ [Spaces]
     @ lits ''bold: label == "From" || label == "To" || label == "Subject",''
     @ [Spaces]
     @ lits ''..Default::default()''
     @ [Spaces]
     @ lits ''},''\<close>

definition header_toks :: "tok list" where
  \<open>header_toks =
     [Open]
     @ header_group
     @ [Close]
     @ [Spaces]
     @ [Open]
     @ lits ''}''
     @ [Close]\<close>

definition newline_run_toks :: "tok list" where
  \<open>newline_run_toks =
     lits ''text_runs.push(TextRun {''
     @ [Spaces]
     @ lits ''text: "~n".to_string(),''
     @ [Spaces]
     @ lits ''style: Default::default(),''
     @ [Spaces]
     @ lits ''});''\<close>

definition body_run_toks :: "tok list" where
  \<open>body_run_toks =
     lits ''text_runs.push(TextRun {''
     @ [Spaces]
     @ lits ''text: body_text,''
     @ [Spaces]
     @ lits ''style: Default::default(),''
     @ [Spaces]
     @ lits ''});''\<close>

definition block_toks :: "tok list" where
  \<open>block_toks =
     lits ''let text_block = TextBlock {''
     @ [Spaces]
     @ lits ''runs: text_runs,''
     @ [Spaces]
     @ lits ''bounds: None,''
     @ [Spaces]
     @ lits ''};''\<close>

definition clone_run_toks :: "tok list" where
  \<open>clone_run_toks =
     lits ''text_runs.push(TextRun {''
     @ [Spaces]
     @ lits ''text: body_text.clone(),''
     @ [Spaces]
     @ lits ''style: Default::default(),''
     @ [Spaces]
     @ lits ''});''\<close>

definition field_group :: "tok list" where
  \<open>field_group =
     lits ''fn format_field(&self, label: &str, value: &str, bold: bool) -> TextRun {''
     @ [Spaces]
     @ lits ''TextRun {''
     @ [Spaces]
     @ lits ''text: format!("{}: {}}~n", label, value),''
     @ [Spaces]
     @ lits ''style: TextStyle {''
     @ [Spaces]
     @ lits ''bold,''
     @ [Spaces]
     @ lits ''..Default::default()''
     @ [Spaces]
     @ lits ''},''\<close>

definition field_toks :: "tok list" where
  \<open>field_toks =
     [Open]
     @ field_group
     @ [Close]
     @ [Spaces]
     @ [Open]
     @ lits ''}''
     @ [Close]\<close>

definition note_title_toks :: "tok list" where
  \<open>note_title_toks =
     lits ''text_runs.push(TextRun {''
     @ [Spaces]
     @ lits ''text: "~nNote:~n".to_string(),''
     @ [Spaces]
     @ lits ''style: TextStyle {''
     @ [Spaces]
     @ lits ''bold: true,''
     @ [Spaces]
     @ lits ''..Default::default()''
     @ [Spaces]
     @ lits ''},''
     @ [Spaces]
     @ lits ''});''\<close>

definition note_run_toks :: "tok list" where
  \<open>note_run_toks =
     lits ''text_runs.push(TextRun {''
     @ [Spaces]
     @ lits ''text: format!("{}}~n", note),''
     @ [Spaces]
     @ lits ''style: Default::default(),''
     @ [Spaces]
     @ lits ''});''\<close>

definition filter_toks :: "tok list" where
  \<open>filter_toks =
     lits ''.filter(|s| !s.is_empty())''\<close>

definition header_ins :: pystr where
  \<open>header_ins = esc (''\<newline>''
      @ ''            bounds: None,\<newline>''
      @ ''            char_positions: None,\<newline>''
      @ ''        '')\<close>

definition header_tpl :: "titem list" where
  "header_tpl = TGrp 1 # map TChr header_ins @ [TGrp 2]"

definition newline_run_out :: pystr where
  \<open>newline_run_out = esc (''text_runs.push(TextRun {\<newline>''
      @ ''            text: "\<newline>''
      @ ''".to_string(),\<newline>''
      @ ''            style: Default::default(),\<newline>''
      @ ''            bounds: None,\<newline>''
      @ ''            char_positions: None,\<newline>''
      @ ''        });'')\<close>

definition body_run_out :: pystr where
  \<open>body_run_out = esc (''text_runs.push(TextRun {\<newline>''
      @ ''            text: body_text,\<newline>''
      @ ''            style: Default::default(),\<newline>''
      @ ''            bounds: None,\<newline>''
      @ ''            char_positions: None,\<newline>''
      @ ''        });'')\<close>

definition mbox_block_out :: pystr where
  \<open>mbox_block_out = esc (''let text_block = TextBlock {\<newline>''
      @ ''                            runs: text_runs,\<newline>''
      @ ''                            bounds: prism_core::document::Rect {\<newline>''
      @ ''                                x: 0.0,\<newline>''
      @ ''                                y: 0.0,\<newline>''
      @ ''                                width: Dimensions::LETTER.width,\<newline>''
      @ ''                                height: Dimensions::LETTER.height,\<newline>''
      @ ''                            },\<newline>''
      @ ''                            paragraph_style: None,\<newline>''
      @ ''                        };'')\<close>

definition clone_run_out :: pystr where
  \<open>clone_run_out = esc (''text_runs.push(TextRun {\<newline>''
      @ ''            text: body_text.clone(),\<newline>''
      @ ''            style: Default::default(),\<newline>''
      @ ''            bounds: None,\<newline>''
      @ ''            char_positions: None,\<newline>''
      @ ''        });'')\<close>

definition msg_block_out :: pystr where
  \<open>msg_block_out = esc (''let text_block = TextBlock {\<newline>''
      @ ''            runs: text_runs,\<newline>''
      @ ''            bounds: prism_core::document::Rect {\<newline>''
      @ ''                x: 0.0,\<newline>''
      @ ''                y: 0.0,\<newline>''
      @ ''                width: Dimensions::LETTER.width,\<newline>''
      @ ''                height: Dimensions::LETTER.height,\<newline>''
      @ ''            },\<newline>''
      @ ''            paragraph_style: None,\<newline>''
      @ ''        };'')\<close>

definition note_title_out :: pystr where
  \<open>note_title_out = esc (''text_runs.push(TextRun {\<newline>''
      @ ''                text: "\<newline>''
      @ ''Note:\<newline>''
      @ ''".to_string(),\<newline>''
      @ ''                style: TextStyle {\<newline>''
      @ ''                    bold: true,\<newline>''
      @ ''                    ..Default::default()\<newline>''
      @ ''                },\<newline>''
      @ ''                bounds: None,\<newline>''
      @ ''                char_positions: None,\<newline>''
      @ ''            });'')\<close>

definition note_run_out :: pystr where
  \<open>note_run_out = esc (''text_runs.push(TextRun {\<newline>''
      @ ''                text: format!("{}\<newline>''
      @ ''", note),\<newline>''
      @ ''                style: Default::default(),\<newline>''
      @ ''                bounds: None,\<newline>''
      @ ''                char_positions: None,\<newline>''
      @ ''            });'')\<close>

definition vcf_block_out :: pystr where
  \<open>vcf_block_out = esc (''let text_block = TextBlock {\<newline>''
      @ ''                runs: text_runs,\<newline>''
      @ ''                bounds: prism_core::document::Rect {\<newline>''
      @ ''                    x: 0.0,\<newline>''
      @ ''                    y: 0.0,\<newline>''
      @ ''                    width: Dimensions::LETTER.width,\<newline>''
      @ ''                    height: Dimensions::LETTER.height,\<newline>''
      @ ''                },\<newline>''
      @ ''                paragraph_style: None,\<newline>''
      @ ''            };'')\<close>

definition filter_out :: pystr where
  \<open>filter_out = esc (''.filter(|s: &&str| !s.is_empty())'')\<close>

text \<open>What a compiled rule makes of a text.\<close>

definition sub_toks :: "tok list \<Rightarrow> titem list \<Rightarrow> pystr \<Rightarrow> pystr" where
  "sub_toks p t s = dst (scan (rx_rule p t) s)"

section \<open>Example texts\<close>

definition c2_input :: pystr where
  \<open>c2_input = esc ''TextRun { text: "x".to_string(), style: Default::default() }''\<close>

definition c2_claimed :: pystr where
  \<open>c2_claimed = esc ''TextRun { text: "x".to_string(), style: Default::default(), bounds: None, char_positions: None }''\<close>

definition c2_body_call :: pystr where
  \<open>c2_body_call = esc ''text_runs.push(TextRun { text: body_text, style: Default::default(), });''\<close>

definition addr_line :: pystr where
  \<open>addr_line = esc ''let x = addr.address.clone().unwrap_or_default();''\<close>

definition addr_line_fixed :: pystr where
  \<open>addr_line_fixed = esc ''let x = addr.address.as_ref().map(|a| a.to_string()).unwrap_or_default();''\<close>

definition addr_upper :: pystr where
  \<open>addr_upper = esc ''let x = Addr.Address.Clone().Unwrap_Or_Default();''\<close>

definition addr_both :: pystr where
  \<open>addr_both = esc ''f(addr.address.as_ref().unwrap_or(&String::new()), addr.address.clone().unwrap_or_default())''\<close>

definition addr_both_fixed :: pystr where
  \<open>addr_both_fixed = esc ''f(addr.address.as_ref().map(|a| a.to_string()).unwrap_or_default(), addr.address.as_ref().map(|a| a.to_string()).unwrap_or_default())''\<close>



definition world_a :: world where
  "world_a = \<lparr>files = [mbox_path \<mapsto> addr_line, ''notes.txt'' \<mapsto> esc ''a''], printed = []\<rparr>"



section \<open>Notions for the properties\<close>

text \<open>
  \<open>rx_search p s\<close> says that the compiled pattern has a match somewhere in \<open>s\<close>
  (\<^verbatim>\<open>p.search(s)\<close> is not \<^verbatim>\<open>None\<close>); \<open>re_search\<close> is \<^verbatim>\<open>re.search\<close> on the pattern as
  written. For a literal, an occurrence is \<open>sublist old s\<close> (\<^verbatim>\<open>old in s\<close>).
\<close>

fun rx_search :: "tok list \<Rightarrow> pystr \<Rightarrow> bool" where
  "rx_search p [] = (rx_match p [] \<noteq> None)"
| "rx_search p (x # xs) = (rx_match p (x # xs) \<noteq> None \<or> rx_search p xs)"

definition re_search :: "pystr \<Rightarrow> pystr \<Rightarrow> re_error + bool" where
  "re_search pat s = (case re_compile pat of Inl e \<Rightarrow> Inl e | Inr p \<Rightarrow> Inr (rx_search p s))"

text \<open>
  A matcher finds something in a text; a \<open>proper\<close> matcher only returns a start of the
  text that is not empty.
\<close>

fun found :: "matcher \<Rightarrow> pystr \<Rightarrow> bool" where
  "found M [] = (M [] \<noteq> None)"
| "found M (x # xs) = (M (x # xs) \<noteq> None \<or> found M xs)"

definition proper :: "matcher \<Rightarrow> bool" where
  "proper M \<longleftrightarrow> (\<forall>s m r. M s = Some (m, r) \<longrightarrow> prefix m s \<and> m \<noteq> [])"

text \<open>
  A list of pieces is \<open>scanned\<close> when every copied character stands where the matcher finds
  nothing and every replaced stretch is what the matcher returns at its place.
\<close>

fun scanned :: "matcher \<Rightarrow> piece list \<Rightarrow> bool" where
  "scanned M [] = True"
| "scanned M (Copy x # ps) = (M (x # src ps) = None \<and> scanned M ps)"
| "scanned M (Subst m r # ps) = (M (m @ src ps) = Some (m, r) \<and> scanned M ps)"

text \<open>The places of the replaced stretches in the source text: start and end offsets.\<close>

fun spans :: "nat \<Rightarrow> piece list \<Rightarrow> (nat \<times> nat) list" where
  "spans n [] = []"
| "spans n (Copy x # ps) = spans (Suc n) ps"
| "spans n (Subst m r # ps) = (n, n + length m) # spans (n + length m) ps"

text \<open>
  The texts a compiled pattern matches: each token contributes a piece, a literal its
  character, \<^verbatim>\<open>\s+\<close> a run of white space that is not empty, a parenthesis nothing.
\<close>

fun piece_ok :: "tok \<Rightarrow> pystr \<Rightarrow> bool" where
  "piece_ok (Lit c) w = (w = [c])"
| "piece_ok Spaces w = (w \<noteq> [] \<and> list_all is_space w)"
| "piece_ok Open w = (w = [])"
| "piece_ok Close w = (w = [])"

definition inst :: "tok list \<Rightarrow> pystr list \<Rightarrow> bool" where
  "inst p ws = list_all2 piece_ok p ws"

definition lang :: "tok list \<Rightarrow> pystr set" where
  "lang p = {concat ws | ws. inst p ws}"

fun consumes :: "tok \<Rightarrow> bool" where
  "consumes (Lit c) = True"
| "consumes Spaces = True"
| "consumes Open = False"
| "consumes Close = False"

text \<open>
  \<open>can p r\<close> holds when some text the pattern matches is a start of \<open>r\<close> or has \<open>r\<close> as
  a start (proved below in the direction that is used). \<open>no_tail_meets p r\<close> says that no
  tail of the pattern can do so, \<open>no_start_in p r\<close> that the pattern cannot do so at any
  place inside \<open>r\<close>. Together they say that no match of \<open>p\<close> can share a character with
  an occurrence of \<open>r\<close>, which is \<open>apart (lang p) r\<close>.
\<close>

primrec skip_can :: "(pystr \<Rightarrow> bool) \<Rightarrow> pystr \<Rightarrow> bool" where
  "skip_can k [] = True"
| "skip_can k (x # xs) = (k (x # xs) \<or> (is_space x \<and> skip_can k xs))"

primrec can :: "tok list \<Rightarrow> pystr \<Rightarrow> bool" where
  "can [] r = True"
| "can (t # ts) r =
     (case t of
        Lit c \<Rightarrow> (case r of [] \<Rightarrow> True | x # xs \<Rightarrow> x = c \<and> can ts xs)
      | Spaces \<Rightarrow> (case r of [] \<Rightarrow> True | x # xs \<Rightarrow> is_space x \<and> skip_can (can ts) xs)
      | Open \<Rightarrow> can ts r
      | Close \<Rightarrow> can ts r)"

primrec no_tail_meets :: "tok list \<Rightarrow> pystr \<Rightarrow> bool" where
  "no_tail_meets [] r = True"
| "no_tail_meets (t # ts) r = ((\<not> consumes t \<or> \<not> can (t # ts) r) \<and> no_tail_meets ts r)"

primrec no_start_in :: "tok list \<Rightarrow> pystr \<Rightarrow> bool" where
  "no_start_in p [] = True"
| "no_start_in p (x # xs) = (\<not> can p (x # xs) \<and> no_start_in p xs)"

definition apart :: "pystr set \<Rightarrow> pystr \<Rightarrow> bool" where
  "apart L r \<longleftrightarrow>
     (\<forall>v\<in>L. \<forall>a b l t. a @ v @ b = l @ r @ t \<longrightarrow>
        length (a @ v) \<le> length l \<or> length (l @ r) \<le> length a)"

definition occurs :: "pystr set \<Rightarrow> pystr \<Rightarrow> bool" where
  "occurs L s \<longleftrightarrow> (\<exists>v\<in>L. sublist v s)"

definition comparable :: "pystr \<Rightarrow> pystr \<Rightarrow> bool" where
  "comparable y r \<longleftrightarrow> prefix y r \<or> prefix r y"

text \<open>The number of characters of a text that are not white space.\<close>

definition nws :: "pystr \<Rightarrow> nat" where
  "nws s = length (filter (\<lambda>c. \<not> is_space c) s)"

text \<open>The shape of the two header patterns: a group, white space, a group of one character.\<close>

definition grouped :: "tok list \<Rightarrow> nat \<Rightarrow> tok list" where
  "grouped A c = Open # A @ [Close, Spaces, Open, Lit c, Close]"

definition mbox_steps :: "pystr \<Rightarrow> pystr" where
  "mbox_steps s =
     str_replace addr_clone_old addr_new
       (str_replace addr_ref_old addr_new
         (sub_toks block_toks (map TChr mbox_block_out)
           (sub_toks body_run_toks (map TChr body_run_out)
             (sub_toks newline_run_toks (map TChr newline_run_out)
               (sub_toks header_toks header_tpl s)))))"

definition msg_steps :: "pystr \<Rightarrow> pystr" where
  "msg_steps s =
     sub_toks block_toks (map TChr msg_block_out)
       (sub_toks clone_run_toks (map TChr clone_run_out)
         (sub_toks newline_run_toks (map TChr newline_run_out)
           (sub_toks header_toks header_tpl
             (str_replace warn_import_old warn_import_new s))))"

definition vcf_steps :: "pystr \<Rightarrow> pystr" where
  "vcf_steps s =
     sub_toks filter_toks (map TChr filter_out)
       (sub_toks block_toks (map TChr vcf_block_out)
         (sub_toks note_run_toks (map TChr note_run_out)
           (sub_toks note_title_toks (map TChr note_title_out)
             (sub_toks field_toks header_tpl s))))"



text \<open>
  The construct of a pattern with given runs of white space: \<open>fill p ws\<close> puts the runs
  \<open>ws\<close>, in their order, at the places where the pattern has \<^verbatim>\<open>\s+\<close>. The runs fit when
  there is one for each place and each is a non-empty run of white space. A pattern is
  \<open>delimited\<close> when each \<^verbatim>\<open>\s+\<close> is followed by a literal character that is not white
  space.
\<close>

fun fill :: "tok list \<Rightarrow> pystr list \<Rightarrow> pystr list" where
  "fill [] ws = []"
| "fill (Lit c # p) ws = [c] # fill p ws"
| "fill (Spaces # p) [] = [] # fill p []"
| "fill (Spaces # p) (w # ws) = w # fill p ws"
| "fill (Open # p) ws = [] # fill p ws"
| "fill (Close # p) ws = [] # fill p ws"

definition runs_ok :: "tok list \<Rightarrow> pystr list \<Rightarrow> bool" where
  "runs_ok p ws \<longleftrightarrow>
     length ws = length (filter ((=) Spaces) p) \<and> list_all (\<lambda>w. w \<noteq> [] \<and> list_all is_space w) ws"

fun starts_plain :: "tok list \<Rightarrow> bool" where
  "starts_plain [] = False"
| "starts_plain (Lit c # p) = (\<not> is_space c)"
| "starts_plain (Spaces # p) = False"
| "starts_plain (Open # p) = starts_plain p"
| "starts_plain (Close # p) = starts_plain p"

fun delimited :: "tok list \<Rightarrow> bool" where
  "delimited [] = True"
| "delimited (Spaces # p) = (starts_plain p \<and> delimited p)"
| "delimited (Lit c # p) = delimited p"
| "delimited (Open # p) = delimited p"
| "delimited (Close # p) = delimited p"







text \<open>
  A run of white space that is not empty, as \<^verbatim>\<open>\s+\<close> matches it.
\<close>

definition white :: "pystr \<Rightarrow> bool" where
  "white w \<longleftrightarrow> w \<noteq> [] \<and> list_all is_space w"




text \<open>
  How a routine ends once it has the bytes \<open>bs\<close> to write: with the file written and the
  line printed, or with the exception the fault causes. (A routine whose fault is
  \<open>Read_fails\<close> does not get as far as this.)
\<close>

definition ending ::
  "string \<Rightarrow> string \<Rightarrow> fault option \<Rightarrow> byte list \<Rightarrow> world \<Rightarrow> error option \<times> world" where
  "ending path message fault bs w =
     (case fault of
        None \<Rightarrow> (None, w\<lparr>files := (files w)(path \<mapsto> bs), printed := printed w @ [message]\<rparr>)
      | Some Read_fails \<Rightarrow> (Some Os_error, w)
      | Some Open_for_write_fails \<Rightarrow> (Some Os_error, w)
      | Some (Write_fails k) \<Rightarrow> (Some Os_error, w\<lparr>files := (files w)(path \<mapsto> take k bs)\<rparr>))"

section \<open>Evaluation\<close>

lemma esc_Nil: "esc [] = []"
  by (simp add: esc_def)

lemma esc_Cons: "esc (c # cs) = (if c = CHR ''~'' then 92 else of_char c) # esc cs"
  by (simp add: esc_def)

lemma esc_append: "esc (a @ b) = esc a @ esc b"
  by (simp add: esc_def)

lemma is_space_low: "c \<le> 32 \<Longrightarrow> is_space c \<longleftrightarrow> (9 \<le> c \<and> c \<le> 13) \<or> 28 \<le> c"
  unfolding is_space_def by (simp; arith)

lemma is_space_mid: "32 < c \<Longrightarrow> c < 133 \<Longrightarrow> is_space c \<longleftrightarrow> False"
  unfolding is_space_def by auto

lemmas ev = esc_Nil esc_Cons is_alnum_def is_special_def cons_ok_def lits_def
  is_space_low is_space_mid

lemma header_compiled: "re_compile header_pattern = Inr header_toks"
  by (simp add: re_compile_def header_pattern_def header_toks_def header_group_def ev)

lemma newline_run_compiled: "re_compile newline_run_pattern = Inr newline_run_toks"
  by (simp add: re_compile_def newline_run_pattern_def newline_run_toks_def ev)

lemma body_run_compiled: "re_compile body_run_pattern = Inr body_run_toks"
  by (simp add: re_compile_def body_run_pattern_def body_run_toks_def ev)

lemma block_compiled: "re_compile block_pattern = Inr block_toks"
  by (simp add: re_compile_def block_pattern_def block_toks_def ev)

lemma clone_run_compiled: "re_compile clone_run_pattern = Inr clone_run_toks"
  by (simp add: re_compile_def clone_run_pattern_def clone_run_toks_def ev)

lemma field_compiled: "re_compile field_pattern = Inr field_toks"
  by (simp add: re_compile_def field_pattern_def field_toks_def field_group_def ev)

lemma note_title_compiled: "re_compile note_title_pattern = Inr note_title_toks"
  by (simp add: re_compile_def note_title_pattern_def note_title_toks_def ev)

lemma note_run_compiled: "re_compile note_run_pattern = Inr note_run_toks"
  by (simp add: re_compile_def note_run_pattern_def note_run_toks_def ev)

lemma filter_compiled: "re_compile filter_pattern = Inr filter_toks"
  by (simp add: re_compile_def filter_pattern_def filter_toks_def ev)

lemma header_template: "parse_template 2 header_repl = Inr header_tpl"
  by (simp add: header_repl_def header_tpl_def header_ins_def ev)

lemma newline_run_template: "parse_template 0 newline_run_repl = Inr (map TChr newline_run_out)"
  by (simp add: newline_run_repl_def newline_run_out_def ev)

lemma body_run_template: "parse_template 0 body_run_repl = Inr (map TChr body_run_out)"
  by (simp add: body_run_repl_def body_run_out_def ev)

lemma mbox_block_template: "parse_template 0 mbox_block_repl = Inr (map TChr mbox_block_out)"
  by (simp add: mbox_block_repl_def mbox_block_out_def ev)

lemma clone_run_template: "parse_template 0 clone_run_repl = Inr (map TChr clone_run_out)"
  by (simp add: clone_run_repl_def clone_run_out_def ev)

lemma msg_block_template: "parse_template 0 msg_block_repl = Inr (map TChr msg_block_out)"
  by (simp add: msg_block_repl_def msg_block_out_def ev)

lemma note_title_template: "parse_template 0 note_title_repl = Inr (map TChr note_title_out)"
  by (simp add: note_title_repl_def note_title_out_def ev)

lemma note_run_template: "parse_template 0 note_run_repl = Inr (map TChr note_run_out)"
  by (simp add: note_run_repl_def note_run_out_def ev)

lemma vcf_block_template: "parse_template 0 vcf_block_repl = Inr (map TChr vcf_block_out)"
  by (simp add: vcf_block_repl_def vcf_block_out_def ev)

lemma filter_template: "parse_template 0 filter_repl = Inr (map TChr filter_out)"
  by (simp add: filter_repl_def filter_out_def ev)

lemma filter_Open_lits: "filter ((=) Open) (lits s) = []"
  by (induction s) (simp_all add: lits_def esc_def)

lemma n_groups:
  "length (filter ((=) Open) header_toks) = 2"
  "length (filter ((=) Open) field_toks) = 2"
  "length (filter ((=) Open) newline_run_toks) = 0"
  "length (filter ((=) Open) body_run_toks) = 0"
  "length (filter ((=) Open) block_toks) = 0"
  "length (filter ((=) Open) clone_run_toks) = 0"
  "length (filter ((=) Open) note_title_toks) = 0"
  "length (filter ((=) Open) note_run_toks) = 0"
  "length (filter ((=) Open) filter_toks) = 0"
  by (simp_all add: header_toks_def field_toks_def header_group_def field_group_def
      newline_run_toks_def body_run_toks_def block_toks_def clone_run_toks_def
      note_title_toks_def note_run_toks_def filter_toks_def filter_Open_lits)


lemma re_sub_compiled:
  assumes "re_compile pat = Inr p" and "parse_template (length (filter ((=) Open) p)) repl = Inr t"
  shows "re_sub pat repl s = Inr (dst (scan (rx_rule p t) s))"
  using assms by (simp add: re_sub_def re_subn_def)

lemma header_sub: "re_sub header_pattern header_repl s = Inr (sub_toks header_toks header_tpl s)"
  by (simp add: re_sub_compiled [OF header_compiled] n_groups header_template sub_toks_def)

lemma field_sub: "re_sub field_pattern header_repl s = Inr (sub_toks field_toks header_tpl s)"
  by (simp add: re_sub_compiled [OF field_compiled] n_groups header_template sub_toks_def)

lemma newline_run_sub:
  "re_sub newline_run_pattern newline_run_repl s
     = Inr (sub_toks newline_run_toks (map TChr newline_run_out) s)"
  by (simp add: re_sub_compiled [OF newline_run_compiled] n_groups newline_run_template sub_toks_def)

lemma body_run_sub:
  "re_sub body_run_pattern body_run_repl s = Inr (sub_toks body_run_toks (map TChr body_run_out) s)"
  by (simp add: re_sub_compiled [OF body_run_compiled] n_groups body_run_template sub_toks_def)

lemma clone_run_sub:
  "re_sub clone_run_pattern clone_run_repl s
     = Inr (sub_toks clone_run_toks (map TChr clone_run_out) s)"
  by (simp add: re_sub_compiled [OF clone_run_compiled] n_groups clone_run_template sub_toks_def)

lemma note_title_sub:
  "re_sub note_title_pattern note_title_repl s
     = Inr (sub_toks note_title_toks (map TChr note_title_out) s)"
  by (simp add: re_sub_compiled [OF note_title_compiled] n_groups note_title_template sub_toks_def)

lemma note_run_sub:
  "re_sub note_run_pattern note_run_repl s = Inr (sub_toks note_run_toks (map TChr note_run_out) s)"
  by (simp add: re_sub_compiled [OF note_run_compiled] n_groups note_run_template sub_toks_def)

lemma mbox_block_sub:
  "re_sub block_pattern mbox_block_repl s = Inr (sub_toks block_toks (map TChr mbox_block_out) s)"
  by (simp add: re_sub_compiled [OF block_compiled] n_groups mbox_block_template sub_toks_def)

lemma msg_block_sub:
  "re_sub block_pattern msg_block_repl s = Inr (sub_toks block_toks (map TChr msg_block_out) s)"
  by (simp add: re_sub_compiled [OF block_compiled] n_groups msg_block_template sub_toks_def)

lemma vcf_block_sub:
  "re_sub block_pattern vcf_block_repl s = Inr (sub_toks block_toks (map TChr vcf_block_out) s)"
  by (simp add: re_sub_compiled [OF block_compiled] n_groups vcf_block_template sub_toks_def)

lemma filter_sub:
  "re_sub filter_pattern filter_repl s = Inr (sub_toks filter_toks (map TChr filter_out) s)"
  by (simp add: re_sub_compiled [OF filter_compiled] n_groups filter_template sub_toks_def)

text \<open>No call of the three routines raises: each routine is a composition of six or five steps.\<close>

lemma fix_mbox_text_eq:
  "fix_mbox_text s = Inr
     (str_replace addr_clone_old addr_new
       (str_replace addr_ref_old addr_new
         (sub_toks block_toks (map TChr mbox_block_out)
           (sub_toks body_run_toks (map TChr body_run_out)
             (sub_toks newline_run_toks (map TChr newline_run_out)
               (sub_toks header_toks header_tpl s))))))"
  by (simp add: fix_mbox_text_def and_then_def header_sub newline_run_sub body_run_sub mbox_block_sub)

lemma fix_msg_text_eq:
  "fix_msg_text s = Inr
     (sub_toks block_toks (map TChr msg_block_out)
       (sub_toks clone_run_toks (map TChr clone_run_out)
         (sub_toks newline_run_toks (map TChr newline_run_out)
           (sub_toks header_toks header_tpl
             (str_replace warn_import_old warn_import_new s)))))"
  by (simp add: fix_msg_text_def and_then_def header_sub newline_run_sub clone_run_sub msg_block_sub)

lemma fix_vcf_text_eq:
  "fix_vcf_text s = Inr
     (sub_toks filter_toks (map TChr filter_out)
       (sub_toks block_toks (map TChr vcf_block_out)
         (sub_toks note_run_toks (map TChr note_run_out)
           (sub_toks note_title_toks (map TChr note_title_out)
             (sub_toks field_toks header_tpl s)))))"
  by (simp add: fix_vcf_text_def and_then_def field_sub note_title_sub note_run_sub vcf_block_sub
      filter_sub)

section \<open>The walk over the text\<close>


lemma src_Nil [simp]: "src [] = []" and src_Cons [simp]: "src (p # ps) = piece_src p @ src ps"
  and src_append [simp]: "src (ps @ qs) = src ps @ src qs"
  by (simp_all add: src_def)

lemma dst_Nil [simp]: "dst [] = []" and dst_Cons [simp]: "dst (p # ps) = piece_dst p @ dst ps"
  and dst_append [simp]: "dst (ps @ qs) = dst ps @ dst qs"
  by (simp_all add: dst_def)

lemma src_map_Copy [simp]: "src (map Copy s) = s"
  by (induction s) simp_all

lemma dst_map_Copy [simp]: "dst (map Copy s) = s"
  by (induction s) simp_all

lemma n_subst_map_Copy [simp]: "n_subst (map Copy s) = 0"
  by (induction s) (simp_all add: n_subst_def)

lemma properD: "proper M \<Longrightarrow> M s = Some (m, r) \<Longrightarrow> prefix m s \<and> m \<noteq> []"
  by (auto simp: proper_def)

lemma drop_pred_prefix:
  assumes "prefix m (x # xs)" and "m \<noteq> []"
  shows "m @ drop (length m - 1) xs = x # xs"
proof -
  from assms obtain t where t: "x # xs = m @ t" by (auto simp: prefix_def)
  with assms(2) obtain m' where m: "m = x # m'" by (cases m) auto
  with t have "xs = m' @ t" by simp
  then show ?thesis using m by simp
qed

lemma scan_Nil: "proper M \<Longrightarrow> scan M [] = []"
  by (cases "M []") (auto dest: properD)

lemma scan_Cons_None: "M (x # xs) = None \<Longrightarrow> scan M (x # xs) = Copy x # scan M xs"
  by simp

lemma scan_match:
  assumes "proper M" and "M (m @ rest) = Some (m, r)"
  shows "scan M (m @ rest) = Subst m r # scan M rest"
proof -
  from properD [OF assms] have ne: "m \<noteq> []" by simp
  then obtain x m' where m: "m = x # m'" by (cases m) auto
  then have "scan M (x # m' @ rest) = Subst m r # scan M (drop (length m - 1) (m' @ rest))"
    using assms(2) ne by simp
  then show ?thesis using m by simp
qed

lemma scan_Cons_Some:
  assumes "proper M" and "M (x # xs) = Some (m, r)"
  shows "\<exists>rest. x # xs = m @ rest \<and> scan M (x # xs) = Subst m r # scan M rest"
proof -
  from properD [OF assms] obtain rest where rest: "x # xs = m @ rest"
    by (auto simp: prefix_def)
  with assms(2) have "M (m @ rest) = Some (m, r)" by simp
  from scan_match [OF assms(1) this] rest show ?thesis by auto
qed

declare scan.simps [simp del]

lemma scan_src: "proper M \<Longrightarrow> src (scan M s) = s"
proof (induction s rule: length_induct)
  case (1 s)
  show ?case
  proof (cases s)
    case Nil
    with 1 show ?thesis by (simp add: scan_Nil)
  next
    case (Cons x xs)
    show ?thesis
    proof (cases "M (x # xs)")
      case None
      with 1 Cons show ?thesis by (simp add: scan_Cons_None)
    next
      case (Some a)
      obtain m r where a: "a = (m, r)" by (cases a)
      from scan_Cons_Some [OF "1.prems"] Some a obtain rest where
        rest: "x # xs = m @ rest" "scan M (x # xs) = Subst m r # scan M rest" by blast
      from properD [OF "1.prems"] Some a have "m \<noteq> []" by blast
      with rest(1) Cons have "length rest < length s" by (metis length_append length_greater_0_conv less_add_same_cancel2)
      with 1 have "src (scan M rest) = rest" by blast
      with rest Cons show ?thesis by simp
    qed
  qed
qed

lemma scan_scanned: "proper M \<Longrightarrow> scanned M (scan M s)"
proof (induction s rule: length_induct)
  case (1 s)
  show ?case
  proof (cases s)
    case Nil
    with 1 show ?thesis by (simp add: scan_Nil)
  next
    case (Cons x xs)
    show ?thesis
    proof (cases "M (x # xs)")
      case None
      with 1 Cons show ?thesis by (simp add: scan_src scan_Cons_None)
    next
      case (Some a)
      obtain m r where a: "a = (m, r)" by (cases a)
      from scan_Cons_Some [OF "1.prems"] Some a obtain rest where
        rest: "x # xs = m @ rest" "scan M (x # xs) = Subst m r # scan M rest" by blast
      from properD [OF "1.prems"] Some a have "m \<noteq> []" by blast
      with rest(1) Cons have "length rest < length s" by (metis length_append length_greater_0_conv less_add_same_cancel2)
      with 1 have "scanned M (scan M rest)" by blast
      moreover have "M (m @ rest) = Some (m, r)" using Some a rest(1) by simp
      ultimately show ?thesis using rest Cons by (simp add: scan_src [OF "1.prems"])
    qed
  qed
qed

lemma scan_not_found: "\<not> found M s \<Longrightarrow> scan M s = map Copy s"
proof (induction s)
  case Nil
  then have "M [] = None" by (cases "M []") auto
  then show ?case by (simp add: scan.simps)
next
  case (Cons x xs)
  then have "M (x # xs) = None" "\<not> found M xs" by (cases "M (x # xs)"; auto)+
  with Cons show ?case by (simp add: scan_Cons_None)
qed

lemma found_iff: "found M s \<longleftrightarrow> (\<exists>i\<le>length s. M (drop i s) \<noteq> None)"
proof (induction s)
  case Nil
  then show ?case by simp
next
  case (Cons x xs)
  show ?case
  proof
    assume "found M (x # xs)"
    then consider "M (x # xs) \<noteq> None" | "found M xs" by auto
    then show "\<exists>i\<le>length (x # xs). M (drop i (x # xs)) \<noteq> None"
    proof cases
      case 1
      then have "M (drop 0 (x # xs)) \<noteq> None" by simp
      then show ?thesis by blast
    next
      case 2
      with Cons obtain i where "i \<le> length xs" "M (drop i xs) \<noteq> None" by auto
      then have "Suc i \<le> length (x # xs)" "M (drop (Suc i) (x # xs)) \<noteq> None" by auto
      then show ?thesis by blast
    qed
  next
    assume "\<exists>i\<le>length (x # xs). M (drop i (x # xs)) \<noteq> None"
    then obtain i where i: "i \<le> length (x # xs)" "M (drop i (x # xs)) \<noteq> None" by auto
    show "found M (x # xs)"
    proof (cases i)
      case 0
      with i show ?thesis by simp
    next
      case (Suc j)
      with i have "j \<le> length xs" "M (drop j xs) \<noteq> None" by auto
      with Cons show ?thesis by auto
    qed
  qed
qed

section \<open>What a pattern matches\<close>


lemma inst_Nil [simp]: "inst [] ws \<longleftrightarrow> ws = []"
  by (simp add: inst_def)

lemma inst_Cons: "inst (t # p) ws \<longleftrightarrow> (\<exists>w ws'. ws = w # ws' \<and> piece_ok t w \<and> inst p ws')"
  by (auto simp: inst_def list_all2_Cons1)

lemma inst_Cons_Cons [simp]: "inst (t # p) (w # ws) \<longleftrightarrow> piece_ok t w \<and> inst p ws"
  by (simp add: inst_def)

lemma inst_append:
  "inst (p @ q) ws \<longleftrightarrow> (\<exists>us vs. ws = us @ vs \<and> inst p us \<and> inst q vs)"
proof
  assume "inst (p @ q) ws"
  then show "\<exists>us vs. ws = us @ vs \<and> inst p us \<and> inst q vs"
    by (auto simp: inst_def list_all2_append1)
next
  assume "\<exists>us vs. ws = us @ vs \<and> inst p us \<and> inst q vs"
  then show "inst (p @ q) ws"
    by (auto simp: inst_def intro: list_all2_appendI)
qed

lemma try_spaces_Some:
  "try_spaces k s n = Some r \<Longrightarrow>
     \<exists>j ws. 0 < j \<and> j \<le> n \<and> k (drop j s) = Some ws \<and> r = take j s # ws"
proof (induction n)
  case 0
  then show ?case by simp
next
  case (Suc n)
  show ?case
  proof (cases "k (drop (Suc n) s)")
    case None
    with Suc obtain j ws where "0 < j" "j \<le> n" "k (drop j s) = Some ws" "r = take j s # ws"
      by auto
    then show ?thesis by (intro exI [of _ j] exI [of _ ws]) simp
  next
    case (Some ws)
    with Suc.prems have "r = take (Suc n) s # ws" by simp
    with Some show ?thesis by (intro exI [of _ "Suc n"] exI [of _ ws]) simp
  qed
qed

lemma try_spaces_not_None:
  "0 < j \<Longrightarrow> j \<le> n \<Longrightarrow> k (drop j s) \<noteq> None \<Longrightarrow> try_spaces k s n \<noteq> None"
proof (induction n)
  case 0
  then show ?case by simp
next
  case (Suc n)
  show ?case
  proof (cases "j = Suc n")
    case True
    with Suc.prems show ?thesis by auto
  next
    case False
    with Suc have "try_spaces k s n \<noteq> None" by simp
    then show ?thesis by (cases "k (drop (Suc n) s)") auto
  qed
qed

lemma take_run_spaces:
  assumes "j \<le> length (takeWhile is_space s)"
  shows "list_all is_space (take j s)"
proof -
  have "take j s = take j (takeWhile is_space s)"
    using assms by (metis append_eq_conv_conj min.absorb2 take_take takeWhile_dropWhile_id
        take_append length_takeWhile_le min_def take_all)
  moreover have "list_all is_space (takeWhile is_space s)"
    by (simp add: list_all_iff) (meson set_takeWhileD)
  ultimately show ?thesis
    by (metis list_all_append append_take_drop_id)
qed

lemma rx_match_sound:
  "rx_match p s = Some ws \<Longrightarrow> inst p ws \<and> prefix (concat ws) s"
proof (induction p arbitrary: s ws)
  case Nil
  then show ?case by simp
next
  case (Cons t p)
  show ?case
  proof (cases t)
    case (Lit c)
    with Cons.prems obtain xs ws' where s: "s = c # xs" and m: "rx_match p xs = Some ws'"
      and ws: "ws = [c] # ws'"
      by (auto split: list.splits if_splits)
    from Cons.IH [OF m] show ?thesis using Lit s ws by simp
  next
    case Spaces
    with Cons.prems have "try_spaces (rx_match p) s (length (takeWhile is_space s)) = Some ws"
      by simp
    from try_spaces_Some [OF this] obtain j ws' where j: "0 < j" "j \<le> length (takeWhile is_space s)"
      and m: "rx_match p (drop j s) = Some ws'" and ws: "ws = take j s # ws'" by blast
    have "j \<le> length s" using j(2) length_takeWhile_le [of is_space s] by simp
    with j(1) have ne: "take j s \<noteq> []" by auto
    have sp: "list_all is_space (take j s)" using j(2) by (rule take_run_spaces)
    from Cons.IH [OF m] have "inst p ws'" "prefix (concat ws') (drop j s)" by simp_all
    then have "prefix (take j s @ concat ws') s"
      by (metis append_take_drop_id same_prefix_prefix)
    then show ?thesis using Spaces ws ne sp \<open>inst p ws'\<close> by simp
  next
    case Open
    with Cons.prems obtain ws' where m: "rx_match p s = Some ws'" and ws: "ws = [] # ws'"
      by auto
    from Cons.IH [OF m] show ?thesis using Open ws by simp
  next
    case Close
    with Cons.prems obtain ws' where m: "rx_match p s = Some ws'" and ws: "ws = [] # ws'"
      by auto
    from Cons.IH [OF m] show ?thesis using Close ws by simp
  qed
qed

lemma run_ge:
  assumes "list_all is_space w"
  shows "length w \<le> length (takeWhile is_space (w @ rest))"
proof -
  have "takeWhile is_space (w @ rest) = w @ takeWhile is_space rest"
    using assms by (simp add: list_all_iff takeWhile_append2)
  then show ?thesis by simp
qed

lemma rx_match_complete:
  "inst p ws \<Longrightarrow> rx_match p (concat ws @ rest) \<noteq> None"
proof (induction p arbitrary: ws)
  case Nil
  then show ?case by simp
next
  case (Cons t p)
  from Cons.prems obtain w ws' where ws: "ws = w # ws'" and ok: "piece_ok t w" and i: "inst p ws'"
    by (auto simp: inst_Cons)
  from Cons.IH [OF i] have m: "rx_match p (concat ws' @ rest) \<noteq> None" .
  show ?case
  proof (cases t)
    case (Lit c)
    with ok ws m show ?thesis by auto
  next
    case Spaces
    with ok have w: "w \<noteq> []" "list_all is_space w" by simp_all
    let ?s = "w @ concat ws' @ rest"
    have 1: "length w \<le> length (takeWhile is_space ?s)" using w(2) by (rule run_ge)
    have 2: "0 < length w" using w(1) by simp
    have 3: "rx_match p (drop (length w) ?s) \<noteq> None" using m by simp
    have "try_spaces (rx_match p) ?s (length (takeWhile is_space ?s)) \<noteq> None"
      using 2 1 3 by (rule try_spaces_not_None)
    with Spaces ws show ?thesis by simp
  next
    case Open
    with ok ws m show ?thesis by auto
  next
    case Close
    with ok ws m show ?thesis by auto
  qed
qed

lemma rx_match_iff: "rx_match p s \<noteq> None \<longleftrightarrow> (\<exists>v\<in>lang p. prefix v s)"
proof
  assume "rx_match p s \<noteq> None"
  then obtain ws where "rx_match p s = Some ws" by auto
  from rx_match_sound [OF this] show "\<exists>v\<in>lang p. prefix v s"
    by (auto simp: lang_def)
next
  assume "\<exists>v\<in>lang p. prefix v s"
  then obtain ws rest where "inst p ws" "s = concat ws @ rest"
    by (auto simp: lang_def prefix_def)
  then show "rx_match p s \<noteq> None" using rx_match_complete by simp
qed

lemma inst_nonempty:
  assumes "inst p ws" and "\<exists>t\<in>set p. consumes t"
  shows "concat ws \<noteq> []"
  using assms
proof (induction p arbitrary: ws)
  case Nil
  then show ?case by simp
next
  case (Cons t p)
  from Cons.prems(1) obtain w ws' where ws: "ws = w # ws'" and ok: "piece_ok t w" and i: "inst p ws'"
    by (auto simp: inst_Cons)
  show ?case
  proof (cases "consumes t")
    case True
    with ok have "w \<noteq> []" by (cases t) auto
    with ws show ?thesis by simp
  next
    case False
    with Cons.prems(2) have "\<exists>t\<in>set p. consumes t" by auto
    from Cons.IH [OF i this] ws show ?thesis by simp
  qed
qed

lemma proper_rx_rule:
  assumes "\<exists>t\<in>set p. consumes t"
  shows "proper (rx_rule p t)"
  unfolding proper_def rx_rule_def
  using rx_match_sound inst_nonempty [OF _ assms]
  by (auto split: option.splits)

lemma proper_lit_rule: "old \<noteq> [] \<Longrightarrow> proper (lit_rule old new)"
  by (auto simp: proper_def lit_rule_def split: if_splits)

lemma found_rx_rule: "found (rx_rule p t) s \<longleftrightarrow> rx_search p s"
  by (induction s) (auto simp: rx_rule_def split: option.splits)

lemma found_lit_rule: "found (lit_rule old new) s \<longleftrightarrow> sublist old s"
proof -
  have "\<And>t. lit_rule old new t \<noteq> None \<longleftrightarrow> prefix old t"
    by (simp add: lit_rule_def)
  then have "found (lit_rule old new) s \<longleftrightarrow> (\<exists>i\<le>length s. prefix old (drop i s))"
    unfolding found_iff by simp
  also have "\<dots> \<longleftrightarrow> sublist old s"
  proof
    assume "\<exists>i\<le>length s. prefix old (drop i s)"
    then obtain i t where "drop i s = old @ t" by (auto simp: prefix_def)
    then have "s = take i s @ old @ t" by (metis append_take_drop_id)
    then show "sublist old s" by (auto simp: sublist_def)
  next
    assume "sublist old s"
    then obtain a b where s: "s = a @ old @ b" by (auto simp: sublist_def)
    then have "length a \<le> length s" "prefix old (drop (length a) s)" by simp_all
    then show "\<exists>i\<le>length s. prefix old (drop i s)" by blast
  qed
  finally show ?thesis .
qed

section \<open>Matches and replacement texts that cannot meet\<close>


lemma comparable_Nil [simp]: "comparable [] r" "comparable y []"
  by (simp_all add: comparable_def)

lemma comparable_Cons [simp]: "comparable (a # y) (b # r) \<longleftrightarrow> a = b \<and> comparable y r"
  by (auto simp: comparable_def)

lemma comparable_append_same [simp]: "comparable (w @ y) (w @ r) \<longleftrightarrow> comparable y r"
  by (simp add: comparable_def)

lemma comparable_common:
  assumes "y @ b = r @ t" shows "comparable y r"
  using assms by (auto simp: comparable_def prefix_def append_eq_append_conv2)

lemma split_le:
  assumes "a @ u = l @ w" and "length a \<le> length l"
  obtains x where "l = a @ x" and "u = x @ w"
proof -
  from assms have "a = take (length a) l" "u = drop (length a) l @ w"
    by (simp_all add: append_eq_append_conv_if)
  then have "l = a @ drop (length a) l" by (metis append_take_drop_id)
  with \<open>u = drop (length a) l @ w\<close> show ?thesis using that by blast
qed

lemma split_ge:
  assumes "a @ u = l @ w" and "length l \<le> length a"
  obtains x where "a = l @ x" and "w = x @ u"
  using assms split_le [of l w a u] by metis

lemma skip_can_sound:
  assumes "list_all is_space w" and "comparable (w @ v) xs" and "\<And>r'. comparable v r' \<Longrightarrow> k r'"
  shows "skip_can k xs"
  using assms(1,2)
proof (induction w arbitrary: xs)
  case Nil
  then have "k xs" using assms(3) by simp
  then show ?case by (cases xs) simp_all
next
  case (Cons a w)
  show ?case
  proof (cases xs)
    case Nil
    then show ?thesis by simp
  next
    case (Cons x xs')
    with Cons.prems have "x = a" "is_space a" "comparable (w @ v) xs'" "list_all is_space w"
      by simp_all
    with Cons.IH [of xs'] Cons show ?thesis by simp
  qed
qed

lemma can_sound: "inst p ws \<Longrightarrow> comparable (concat ws) r \<Longrightarrow> can p r"
proof (induction p arbitrary: ws r)
  case Nil
  then show ?case by simp
next
  case (Cons t p)
  from Cons.prems(1) obtain w ws' where ws: "ws = w # ws'" and ok: "piece_ok t w" and i: "inst p ws'"
    by (auto simp: inst_Cons)
  show ?case
  proof (cases t)
    case (Lit c)
    with ok have w: "w = [c]" by simp
    show ?thesis
    proof (cases r)
      case Nil
      with Lit show ?thesis by simp
    next
      case (Cons x xs)
      with Cons.prems(2) ws w have "x = c" "comparable (concat ws') xs" by simp_all
      with Cons.IH [OF i] Lit Cons show ?thesis by simp
    qed
  next
    case Spaces
    with ok obtain a w' where w: "w = a # w'" "is_space a" "list_all is_space w'"
      by (cases w) auto
    show ?thesis
    proof (cases r)
      case Nil
      with Spaces show ?thesis by simp
    next
      case (Cons x xs)
      with Cons.prems(2) ws w have x: "x = a" and c: "comparable (w' @ concat ws') xs" by simp_all
      have "skip_can (can p) xs"
        using w(3) c Cons.IH [OF i] by (rule skip_can_sound)
      with Spaces Cons x w(2) show ?thesis by simp
    qed
  next
    case Open
    with ok ws Cons.prems(2) Cons.IH [OF i] show ?thesis by simp
  next
    case Close
    with ok ws Cons.prems(2) Cons.IH [OF i] show ?thesis by simp
  qed
qed

text \<open>A non-empty end of a matched text is matched by a tail of the pattern.\<close>

lemma inst_tail:
  assumes "inst p ws" and "concat ws = x @ y" and "y \<noteq> []"
  shows "\<exists>q t ts ws'. p = q @ t # ts \<and> consumes t \<and> inst (t # ts) ws' \<and> concat ws' = y"
  using assms
proof (induction p arbitrary: ws x)
  case Nil
  then show ?case by simp
next
  case (Cons t p)
  from Cons.prems(1) obtain w ws' where ws: "ws = w # ws'" and ok: "piece_ok t w" and i: "inst p ws'"
    by (auto simp: inst_Cons)
  from Cons.prems(2) ws have eq: "w @ concat ws' = x @ y" by simp
  show ?case
  proof (cases "length w \<le> length x")
    case True
    with eq obtain x' where "x = w @ x'" "concat ws' = x' @ y"
      by (rule split_le)
    from Cons.IH [OF i this(2) Cons.prems(3)] obtain q t' ts ws''
      where "p = q @ t' # ts" "consumes t'" "inst (t' # ts) ws''" "concat ws'' = y" by blast
    then have "t # p = (t # q) @ t' # ts" by simp
    with \<open>consumes t'\<close> \<open>inst (t' # ts) ws''\<close> \<open>concat ws'' = y\<close> show ?thesis by blast
  next
    case False
    then have "length x \<le> length w" by simp
    with eq obtain w2 where w2': "w = x @ w2" "y = w2 @ concat ws'"
      by (rule split_ge)
    with False have w2: "w = x @ w2" "w2 \<noteq> []" "y = w2 @ concat ws'" by auto
    then have wne: "w \<noteq> []" by simp
    have c: "consumes t" using ok wne by (cases t) auto
    have "piece_ok t w2"
    proof (cases t)
      case (Lit c)
      with ok w2 show ?thesis by (cases x) auto
    next
      case Spaces
      with ok w2 show ?thesis by auto
    next
      case Open
      with ok wne show ?thesis by simp
    next
      case Close
      with ok wne show ?thesis by simp
    qed
    with i have "inst (t # p) (w2 # ws')" by simp
    moreover have "concat (w2 # ws') = y" using w2 by simp
    moreover have "t # p = [] @ t # p" by simp
    ultimately show ?thesis using c by blast
  qed
qed

lemma no_tail_meets_append:
  "no_tail_meets (q @ t # ts) r \<Longrightarrow> consumes t \<Longrightarrow> \<not> can (t # ts) r"
  by (induction q) auto

lemma no_start_in_drop:
  "no_start_in p r \<Longrightarrow> r = r1 @ r2 \<Longrightarrow> r2 \<noteq> [] \<Longrightarrow> \<not> can p r2"
proof (induction r arbitrary: r1)
  case Nil
  then show ?case by simp
next
  case (Cons x xs)
  show ?case
  proof (cases r1)
    case Nil
    with Cons.prems show ?thesis by auto
  next
    case (Cons a r1')
    with Cons.prems have "xs = r1' @ r2" "no_start_in p xs" by simp_all
    with Cons.IH Cons.prems(3) show ?thesis by blast
  qed
qed

lemma apart_criteria:
  assumes tails: "no_tail_meets p r" and starts: "no_start_in p r"
  shows "apart (lang p) r"
  unfolding apart_def
proof (intro ballI allI impI)
  fix v a b l t
  assume v: "v \<in> lang p" and eq: "a @ v @ b = l @ r @ t"
  from v obtain ws where i: "inst p ws" and vw: "v = concat ws" by (auto simp: lang_def)
  show "length (a @ v) \<le> length l \<or> length (l @ r) \<le> length a"
  proof (rule ccontr)
    assume "\<not> ?thesis"
    then have 1: "length l < length a + length v" and 2: "length a < length l + length r"
      by simp_all
    show False
    proof (cases "length a \<le> length l")
      case True
      with eq obtain x where l: "l = a @ x" and vx: "v @ b = x @ r @ t"
        by (rule split_le)
      from l 1 have lx: "length x < length v" by simp
      then have "length x \<le> length v" by simp
      with vx obtain y where y': "v = x @ y" "r @ t = y @ b"
        by (rule split_ge)
      with lx have y: "v = x @ y" "y \<noteq> []" "y @ b = r @ t" by auto
      from inst_tail [OF i _ y(2)] y(1) vw obtain q t' ts ws'
        where p: "p = q @ t' # ts" and c: "consumes t'" and i': "inst (t' # ts) ws'"
          and cw: "concat ws' = y" by metis
      have "comparable y r" using y(3) by (rule comparable_common)
      with can_sound [OF i'] cw have "can (t' # ts) r" by simp
      with no_tail_meets_append tails p c show False by blast
    next
      case False
      then have "length l \<le> length a" by simp
      with eq obtain r1 where a: "a = l @ r1" and rr: "r @ t = r1 @ v @ b"
        by (rule split_ge)
      from a 2 have lr: "length r1 < length r" by simp
      then have "length r1 \<le> length r" by simp
      with rr [symmetric] obtain r2 where r': "r = r1 @ r2" "v @ b = r2 @ t"
        by (rule split_le)
      with lr have r: "r = r1 @ r2" "r2 \<noteq> []" "v @ b = r2 @ t" by auto
      have "comparable v r2" using r(3) by (rule comparable_common)
      with can_sound [OF i] vw have "can p r2" by simp
      with no_start_in_drop [OF starts r(1) r(2)] show False by blast
    qed
  qed
qed


lemma sublist_split: "sublist v s \<longleftrightarrow> (\<exists>a b. s = a @ v @ b)"
  by (simp add: sublist_def)

lemma occ_dst:
  assumes ap: "\<forall>m r. Subst m r \<in> set ps \<longrightarrow> apart L r" and v: "v \<in> L"
    and sub: "sublist v (cs @ dst ps)"
  shows "\<exists>ps1 ds ps2. map Copy cs @ ps = ps1 @ map Copy ds @ ps2 \<and> sublist v ds"
  using ap sub
proof (induction ps arbitrary: cs)
  case Nil
  then have "map Copy cs @ [] = [] @ map Copy cs @ []" "sublist v cs" by simp_all
  then show ?case by blast
next
  case (Cons p ps)
  show ?case
  proof (cases p)
    case (Copy x)
    with Cons.prems have "sublist v ((cs @ [x]) @ dst ps)"
      and "\<forall>m r. Subst m r \<in> set ps \<longrightarrow> apart L r" by simp_all
    from Cons.IH [OF this(2) this(1)] Copy show ?thesis by simp
  next
    case (Subst m r)
    with Cons.prems have ar: "apart L r" and ap': "\<forall>m r. Subst m r \<in> set ps \<longrightarrow> apart L r"
      by auto
    from Cons.prems(2) Subst obtain a b where eq: "a @ v @ b = cs @ r @ dst ps"
      by (auto simp: sublist_split)
    from ar v eq have "length (a @ v) \<le> length cs \<or> length (cs @ r) \<le> length a"
      unfolding apart_def by blast
    then show ?thesis
    proof
      assume le: "length (a @ v) \<le> length cs"
      have "(a @ v) @ b = cs @ r @ dst ps" using eq by simp
      from this le obtain x where "cs = (a @ v) @ x" "b = x @ r @ dst ps" by (rule split_le)
      then have "sublist v cs" by (auto simp: sublist_split)
      moreover have "map Copy cs @ p # ps = [] @ map Copy cs @ p # ps" by simp
      ultimately show ?thesis by blast
    next
      assume le: "length (cs @ r) \<le> length a"
      have "a @ v @ b = (cs @ r) @ dst ps" using eq by simp
      from this le obtain x where "a = (cs @ r) @ x" "dst ps = x @ v @ b" by (rule split_ge)
      then have "sublist v ([] @ dst ps)" by (auto simp: sublist_split)
      from Cons.IH [OF ap' this] obtain ps1 ds ps2
        where "map Copy [] @ ps = ps1 @ map Copy ds @ ps2" "sublist v ds" by blast
      then have "map Copy cs @ p # ps = (map Copy cs @ p # ps1) @ map Copy ds @ ps2" by simp
      with \<open>sublist v ds\<close> show ?thesis by blast
    qed
  qed
qed

lemma no_new_occurrence:
  assumes "\<forall>m r. Subst m r \<in> set ps \<longrightarrow> apart L r" and "\<not> occurs L (src ps)"
  shows "\<not> occurs L (dst ps)"
proof
  assume "occurs L (dst ps)"
  then obtain v where v: "v \<in> L" "sublist v ([] @ dst ps)" by (auto simp: occurs_def)
  from occ_dst [OF assms(1) this] obtain ps1 ds ps2
    where ps: "ps = ps1 @ map Copy ds @ ps2" and s: "sublist v ds" by auto
  from s obtain a b where "ds = a @ v @ b" by (auto simp: sublist_split)
  with ps have "src ps = (src ps1 @ a) @ v @ (b @ src ps2)" by simp
  then have "sublist v (src ps)" unfolding sublist_split by blast
  with v(1) assms(2) show False by (auto simp: occurs_def)
qed

lemma scanned_append: "scanned M (ps @ qs) \<Longrightarrow> scanned M qs"
proof (induction ps)
  case Nil
  then show ?case by simp
next
  case (Cons p ps)
  then show ?case by (cases p) simp_all
qed

lemma no_own_occurrence:
  assumes sc: "scanned M ps" and ap: "\<forall>m r. Subst m r \<in> set ps \<longrightarrow> apart L r"
    and complete: "\<And>v s. v \<in> L \<Longrightarrow> prefix v s \<Longrightarrow> M s \<noteq> None" and ne: "[] \<notin> L"
  shows "\<not> occurs L (dst ps)"
proof
  assume "occurs L (dst ps)"
  then obtain v where v: "v \<in> L" "sublist v ([] @ dst ps)" by (auto simp: occurs_def)
  from occ_dst [OF ap this] obtain ps1 ds ps2
    where ps: "ps = ps1 @ map Copy ds @ ps2" and s: "sublist v ds" by auto
  from s obtain a b where ds: "ds = a @ v @ b" by (auto simp: sublist_split)
  from v(1) ne obtain x v' where vx: "v = x # v'" by (cases v) auto
  have "ps = (ps1 @ map Copy a) @ (Copy x # map Copy (v' @ b) @ ps2)"
    using ps ds vx by simp
  with sc have "scanned M (Copy x # map Copy (v' @ b) @ ps2)"
    using scanned_append by metis
  then have "M (v @ b @ src ps2) = None" using vx by simp
  moreover have "prefix v (v @ b @ src ps2)" by simp
  ultimately show False using complete [OF v(1)] by blast
qed

lemma refine_pieces:
  assumes "\<forall>m r. Subst m r \<in> set ps \<longrightarrow> (\<exists>g m'. m = g @ m' \<and> r = g @ r0)"
  shows "\<exists>qs. src qs = src ps \<and> dst qs = dst ps \<and> (\<forall>m r. Subst m r \<in> set qs \<longrightarrow> r = r0)"
  using assms
proof (induction ps)
  case Nil
  have "src [] = src []" "dst [] = dst ([]::piece list)" "\<forall>m r. Subst m r \<in> set [] \<longrightarrow> r = r0"
    by simp_all
  then show ?case by blast
next
  case (Cons p ps)
  then obtain qs where qs: "src qs = src ps" "dst qs = dst ps"
    "\<forall>m r. Subst m r \<in> set qs \<longrightarrow> r = r0" by auto
  show ?case
  proof (cases p)
    case (Copy x)
    with qs have "src (p # qs) = src (p # ps)" "dst (p # qs) = dst (p # ps)"
      "\<forall>m r. Subst m r \<in> set (p # qs) \<longrightarrow> r = r0" by simp_all
    then show ?thesis by blast
  next
    case (Subst m r)
    then have "Subst m r \<in> set (p # ps)" by simp
    with Cons.prems obtain g m' where g: "m = g @ m'" "r = g @ r0" by blast
    let ?qs = "map Copy g @ Subst m' r0 # qs"
    from qs g Subst have "src ?qs = src (p # ps)" "dst ?qs = dst (p # ps)"
      "\<forall>m r. Subst m r \<in> set ?qs \<longrightarrow> r = r0" by auto
    then show ?thesis by blast
  qed
qed

lemma scanned_pieces:
  assumes "scanned M ps" and "Subst m r \<in> set ps"
  shows "\<exists>s. M s = Some (m, r)"
  using assms
proof (induction ps)
  case Nil
  then show ?case by simp
next
  case (Cons p ps)
  then show ?case by (cases p) auto
qed

lemma found_occurs:
  assumes "\<And>s. M s \<noteq> None \<longleftrightarrow> (\<exists>v\<in>L. prefix v s)"
  shows "found M s \<longleftrightarrow> occurs L s"
proof -
  have "found M s \<longleftrightarrow> (\<exists>i\<le>length s. \<exists>v\<in>L. prefix v (drop i s))"
    unfolding found_iff by (simp only: assms)
  also have "\<dots> \<longleftrightarrow> occurs L s"
  proof
    assume "\<exists>i\<le>length s. \<exists>v\<in>L. prefix v (drop i s)"
    then obtain i v t where "v \<in> L" "drop i s = v @ t" by (auto simp: prefix_def)
    then have "s = take i s @ v @ t" by (metis append_take_drop_id)
    with \<open>v \<in> L\<close> show "occurs L s" by (auto simp: occurs_def sublist_split)
  next
    assume "occurs L s"
    then obtain v a b where v: "v \<in> L" "s = a @ v @ b" by (auto simp: occurs_def sublist_split)
    then have "length a \<le> length s" "prefix v (drop (length a) s)" by simp_all
    with v(1) show "\<exists>i\<le>length s. \<exists>v\<in>L. prefix v (drop i s)" by blast
  qed
  finally show ?thesis .
qed


lemma render_chars: "render (map TChr r) gs = r"
  by (induction r) simp_all

lemma render_append_chars: "render (map TChr r @ t) gs = r @ render t gs"
  by (induction r) simp_all

lemma rx_rule_not_None: "rx_rule p t s \<noteq> None \<longleftrightarrow> (\<exists>v\<in>lang p. prefix v s)"
  using rx_match_iff [of p s] by (auto simp: rx_rule_def split: option.splits)

lemma lit_rule_not_None: "lit_rule old new s \<noteq> None \<longleftrightarrow> (\<exists>v\<in>{old}. prefix v s)"
  by (simp add: lit_rule_def)

lemma lang_nonempty: "\<exists>t\<in>set p. consumes t \<Longrightarrow> [] \<notin> lang p"
  using inst_nonempty by (fastforce simp: lang_def)

lemma occurs_single [simp]: "occurs {old} s \<longleftrightarrow> sublist old s"
  by (simp add: occurs_def)

lemma inst_map_Lit: "inst (map Lit old) ws \<longleftrightarrow> ws = map (\<lambda>c. [c]) old"
proof (induction old arbitrary: ws)
  case Nil
  then show ?case by simp
next
  case (Cons c old)
  then show ?case by (cases ws) (auto simp: inst_def)
qed

lemma lang_map_Lit: "lang (map Lit old) = {old}"
proof -
  have "concat (map (\<lambda>c. [c]) old) = old" by (induction old) simp_all
  then show ?thesis by (auto simp: lang_def inst_map_Lit)
qed

text \<open>Rules with a fixed replacement.\<close>

lemma sub_toks_src:
  assumes "\<exists>t\<in>set p. consumes t"
  shows "src (scan (rx_rule p t) s) = s" and "scanned (rx_rule p t) (scan (rx_rule p t) s)"
  using proper_rx_rule [OF assms] by (simp_all add: scan_src scan_scanned)

lemma sub_toks_fixed_pieces:
  assumes "\<exists>t\<in>set p. consumes t" and "Subst m r \<in> set (scan (rx_rule p (map TChr r0)) s)"
  shows "r = r0"
proof -
  from scanned_pieces [OF sub_toks_src(2) [OF assms(1)] assms(2)]
  obtain s' where "rx_rule p (map TChr r0) s' = Some (m, r)" by blast
  then show ?thesis by (auto simp: rx_rule_def render_chars split: option.splits)
qed

lemma sub_toks_preserves:
  assumes "\<exists>t\<in>set p. consumes t" and "apart L r0" and "\<not> occurs L s"
  shows "\<not> occurs L (sub_toks p (map TChr r0) s)"
  unfolding sub_toks_def
proof (rule no_new_occurrence)
  show "\<forall>m r. Subst m r \<in> set (scan (rx_rule p (map TChr r0)) s) \<longrightarrow> apart L r"
    using sub_toks_fixed_pieces [OF assms(1)] assms(2) by blast
  show "\<not> occurs L (src (scan (rx_rule p (map TChr r0)) s))"
    using assms(3) by (simp add: sub_toks_src(1) [OF assms(1)])
qed

lemma sub_toks_clears:
  assumes "\<exists>t\<in>set p. consumes t" and "apart (lang p) r0"
  shows "\<not> occurs (lang p) (sub_toks p (map TChr r0) s)"
  unfolding sub_toks_def
proof (rule no_own_occurrence)
  show "scanned (rx_rule p (map TChr r0)) (scan (rx_rule p (map TChr r0)) s)"
    by (rule sub_toks_src(2) [OF assms(1)])
  show "\<forall>m r. Subst m r \<in> set (scan (rx_rule p (map TChr r0)) s) \<longrightarrow> apart (lang p) r"
    using sub_toks_fixed_pieces [OF assms(1)] assms(2) by blast
  show "\<And>v s. v \<in> lang p \<Longrightarrow> prefix v s \<Longrightarrow> rx_rule p (map TChr r0) s \<noteq> None"
    using rx_rule_not_None by blast
  show "[] \<notin> lang p" by (rule lang_nonempty [OF assms(1)])
qed

lemma sub_toks_unchanged:
  assumes "\<not> occurs (lang p) s"
  shows "sub_toks p t s = s"
proof -
  have "found (rx_rule p t) s \<longleftrightarrow> occurs (lang p) s"
    by (rule found_occurs) (rule rx_rule_not_None)
  with assms show ?thesis by (simp add: sub_toks_def scan_not_found)
qed

text \<open>Literal replacement.\<close>

lemma str_replace_pieces:
  assumes "old \<noteq> []"
  shows "src (scan (lit_rule old new) s) = s"
    and "scanned (lit_rule old new) (scan (lit_rule old new) s)"
    and "Subst m r \<in> set (scan (lit_rule old new) s) \<Longrightarrow> m = old \<and> r = new"
proof -
  show "src (scan (lit_rule old new) s) = s"
    by (simp add: scan_src proper_lit_rule [OF assms])
  show sc: "scanned (lit_rule old new) (scan (lit_rule old new) s)"
    by (simp add: scan_scanned proper_lit_rule [OF assms])
  assume "Subst m r \<in> set (scan (lit_rule old new) s)"
  from scanned_pieces [OF sc this] show "m = old \<and> r = new"
    by (auto simp: lit_rule_def split: if_splits)
qed

lemma str_replace_preserves:
  assumes "old \<noteq> []" and "apart L new" and "\<not> occurs L s"
  shows "\<not> occurs L (str_replace old new s)"
  unfolding str_replace_def
proof (rule no_new_occurrence)
  show "\<forall>m r. Subst m r \<in> set (scan (lit_rule old new) s) \<longrightarrow> apart L r"
    using str_replace_pieces(3) [OF assms(1)] assms(2) by blast
  show "\<not> occurs L (src (scan (lit_rule old new) s))"
    using assms(3) by (simp add: str_replace_pieces(1) [OF assms(1)])
qed

lemma str_replace_clears:
  assumes "old \<noteq> []" and "apart {old} new"
  shows "\<not> sublist old (str_replace old new s)"
proof -
  have "\<not> occurs {old} (dst (scan (lit_rule old new) s))"
  proof (rule no_own_occurrence)
    show "scanned (lit_rule old new) (scan (lit_rule old new) s)"
      by (rule str_replace_pieces(2) [OF assms(1)])
    show "\<forall>m r. Subst m r \<in> set (scan (lit_rule old new) s) \<longrightarrow> apart {old} r"
      using str_replace_pieces(3) [OF assms(1)] assms(2) by blast
    show "\<And>v s. v \<in> {old} \<Longrightarrow> prefix v s \<Longrightarrow> lit_rule old new s \<noteq> None"
      by (simp add: lit_rule_def)
    show "[] \<notin> {old}" using assms(1) by simp
  qed
  then show ?thesis by (simp add: str_replace_def)
qed

lemma str_replace_unchanged: "\<not> sublist old s \<Longrightarrow> str_replace old new s = s"
  by (simp add: str_replace_def scan_not_found found_lit_rule)


lemma groups_plain:
  "list_all consumes A \<Longrightarrow> length wsA = length A \<Longrightarrow>
   groups (A @ rest) (wsA @ wrest) (Some g) = groups rest wrest (Some (g @ concat wsA))"
proof (induction A arbitrary: wsA g)
  case Nil
  then show ?case by simp
next
  case (Cons t A)
  then obtain w ws' where ws: "wsA = w # ws'" by (cases wsA) auto
  with Cons.prems have "list_all consumes A" "length ws' = length A" "consumes t" by simp_all
  with Cons.IH [of ws' "g @ w"] ws show ?case by (cases t) simp_all
qed

lemma inst_appendI: "inst p us \<Longrightarrow> inst q vs \<Longrightarrow> inst (p @ q) (us @ vs)"
  by (auto simp: inst_append)

lemma inst_grouped:
  "inst (grouped A c) ws \<longleftrightarrow>
     (\<exists>wsA sp. ws = [] # wsA @ [[], sp, [], [c], []] \<and> inst A wsA \<and> piece_ok Spaces sp)"
proof
  assume "inst (grouped A c) ws"
  then show "\<exists>wsA sp. ws = [] # wsA @ [[], sp, [], [c], []] \<and> inst A wsA \<and> piece_ok Spaces sp"
    unfolding grouped_def by (auto simp: inst_Cons inst_append)
next
  assume "\<exists>wsA sp. ws = [] # wsA @ [[], sp, [], [c], []] \<and> inst A wsA \<and> piece_ok Spaces sp"
  then obtain wsA sp where ws: "ws = [] # wsA @ [[], sp, [], [c], []]" and i: "inst A wsA"
    and sp: "piece_ok Spaces sp" by blast
  have "inst [Close, Spaces, Open, Lit c, Close] [[], sp, [], [c], []]" using sp by simp
  from inst_appendI [OF i this] show "inst (grouped A c) ws"
    unfolding grouped_def ws by simp
qed

lemma groups_grouped:
  assumes "list_all consumes A" and "inst A wsA"
  shows "groups (grouped A c) ([] # wsA @ [[], sp, [], [c], []]) None = [concat wsA, [c]]"
proof -
  have "length wsA = length A" using assms(2) by (auto simp: inst_def dest: list_all2_lengthD)
  from groups_plain [OF assms(1) this] show ?thesis by (simp add: grouped_def)
qed

lemma grouped_match:
  assumes "list_all consumes A"
    and "rx_rule (grouped A c) (TGrp 1 # map TChr ins @ [TGrp 2]) s = Some (m, r)"
  shows "\<exists>g sp. g \<in> lang A \<and> piece_ok Spaces sp \<and> m = g @ sp @ [c] \<and> r = g @ ins @ [c]"
proof -
  from assms(2) obtain ws where m: "rx_match (grouped A c) s = Some ws" "m = concat ws"
    and r: "r = render (TGrp 1 # map TChr ins @ [TGrp 2]) (groups (grouped A c) ws None)"
    by (auto simp: rx_rule_def split: option.splits)
  from rx_match_sound [OF m(1)] have "inst (grouped A c) ws" by simp
  then obtain wsA sp where ws: "ws = [] # wsA @ [[], sp, [], [c], []]" and i: "inst A wsA"
    and sp: "piece_ok Spaces sp" by (auto simp: inst_grouped)
  have "groups (grouped A c) ws None = [concat wsA, [c]]"
    unfolding ws by (rule groups_grouped [OF assms(1) i])
  with r have "r = concat wsA @ ins @ [c]" by (simp add: render_append_chars)
  moreover have "m = concat wsA @ sp @ [c]" using m(2) ws by simp
  moreover have "concat wsA \<in> lang A" using i by (auto simp: lang_def)
  ultimately show ?thesis using sp by blast
qed

lemma consumes_grouped: "\<exists>t\<in>set (grouped A c). consumes t"
  by (simp add: grouped_def)

lemma grouped_preserves:
  assumes A: "list_all consumes A" and ap: "apart L (ins @ [c])" and no: "\<not> occurs L s"
  shows "\<not> occurs L (sub_toks (grouped A c) (TGrp 1 # map TChr ins @ [TGrp 2]) s)"
proof -
  let ?M = "rx_rule (grouped A c) (TGrp 1 # map TChr ins @ [TGrp 2])"
  let ?ps = "scan ?M s"
  have sc: "scanned ?M ?ps" and sr: "src ?ps = s"
    using sub_toks_src [OF consumes_grouped] by simp_all
  have "\<forall>m r. Subst m r \<in> set ?ps \<longrightarrow> (\<exists>g m'. m = g @ m' \<and> r = g @ (ins @ [c]))"
  proof (intro allI impI)
    fix m r assume "Subst m r \<in> set ?ps"
    from scanned_pieces [OF sc this] obtain s' where "?M s' = Some (m, r)" by blast
    from grouped_match [OF A this] show "\<exists>g m'. m = g @ m' \<and> r = g @ (ins @ [c])" by blast
  qed
  from refine_pieces [OF this] obtain qs where qs: "src qs = src ?ps" "dst qs = dst ?ps"
    "\<forall>m r. Subst m r \<in> set qs \<longrightarrow> r = ins @ [c]" by blast
  have "\<not> occurs L (dst qs)"
  proof (rule no_new_occurrence)
    show "\<forall>m r. Subst m r \<in> set qs \<longrightarrow> apart L r" using qs(3) ap by auto
    show "\<not> occurs L (src qs)" using no qs(1) sr by simp
  qed
  then show ?thesis by (simp add: sub_toks_def qs(2))
qed

lemma nws_append [simp]: "nws (a @ b) = nws a + nws b"
  by (simp add: nws_def)

lemma nws_spaces: "list_all is_space w \<Longrightarrow> nws w = 0"
  by (induction w) (simp_all add: nws_def)

lemma nws_inst: "inst p ws \<Longrightarrow> inst p ws' \<Longrightarrow> nws (concat ws) = nws (concat ws')"
proof (induction p arbitrary: ws ws')
  case Nil
  then show ?case by simp
next
  case (Cons t p)
  from Cons.prems obtain w u v u' where ws: "ws = w # u" "ws' = v # u'"
    and ok: "piece_ok t w" "piece_ok t v" and i: "inst p u" "inst p u'"
    by (auto simp: inst_Cons)
  have "nws w = nws v" using ok by (cases t) (auto simp: nws_spaces)
  with Cons.IH [OF i] ws show ?case by simp
qed

lemma nws_sublist: "sublist v g \<Longrightarrow> nws v \<le> nws g"
  by (auto simp: sublist_split)

lemma grouped_left_free:
  assumes A: "A = Lit c0 # Lit d0 # A2"
    and tails: "no_tail_meets (Lit d0 # A2 @ [Close, Spaces, Open, Lit c, Close]) [c0, d0]"
    and c: "\<not> is_space c"
    and v: "v \<in> lang (grouped A c)" and g: "g \<in> lang A"
    and eq: "a @ v @ b = l @ g"
  shows "length (a @ v) \<le> length l"
proof (rule ccontr)
  assume "\<not> ?thesis"
  then have over: "length l < length a + length v" by simp
  from v obtain ws where "inst (grouped A c) ws" and vw: "v = concat ws" by (auto simp: lang_def)
  then obtain wsA sp where ws: "ws = [] # wsA @ [[], sp, [], [c], []]" and i: "inst A wsA"
    and sp: "piece_ok Spaces sp" by (auto simp: inst_grouped)
  from g obtain wsg where ig: "inst A wsg" and gw: "g = concat wsg" by (auto simp: lang_def)
  show False
  proof (cases "length l \<le> length a")
    case True
    with eq [symmetric] obtain a' where "a = l @ a'" "g = a' @ v @ b" by (rule split_le)
    then have "sublist v g" by (auto simp: sublist_split)
    then have "nws v \<le> nws g" by (rule nws_sublist)
    moreover have "nws v = nws (concat wsA) + 1"
      using vw ws sp c by (simp add: nws_spaces) (simp add: nws_def)
    moreover have "nws (concat wsA) = nws g" unfolding gw by (rule nws_inst [OF i ig])
    ultimately show False by simp
  next
    case False
    then have "length a \<le> length l" by simp
    with eq obtain x where l: "l = a @ x" and vb: "v @ b = x @ g" by (rule split_le)
    from l False have xne: "x \<noteq> []" by auto
    from l over have "length x \<le> length v" by simp
    with vb [symmetric] obtain y where y: "v = x @ y" "g = y @ b" by (rule split_le)
    from l over y have yne: "y \<noteq> []" by auto
    from ig A obtain wg where wg: "g = c0 # d0 # wg"
      unfolding gw by (auto simp: inst_Cons)
    from i A obtain ws2 where wsA: "wsA = [c0] # [d0] # ws2" and i2: "inst A2 ws2"
      by (auto simp: inst_Cons)
    let ?rest = "Lit d0 # A2 @ [Close, Spaces, Open, Lit c, Close]"
    let ?wrest = "[d0] # ws2 @ [[], sp, [], [c], []]"
    have "inst [Close, Spaces, Open, Lit c, Close] [[], sp, [], [c], []]" using sp by simp
    from inst_appendI [OF i2 this] have ir: "inst ?rest ?wrest" by simp
    have v': "v = c0 # concat ?wrest" using vw ws wsA by simp
    with y(1) xne obtain x' where x': "x = c0 # x'" "concat ?wrest = x' @ y"
      by (cases x) auto
    from inst_tail [OF ir x'(2) yne] obtain q t ts ws'
      where p: "?rest = q @ t # ts" and ct: "consumes t" and it: "inst (t # ts) ws'"
        and cw: "concat ws' = y" by blast
    have "comparable y [c0, d0]"
    proof -
      from y(2) wg have "y @ b = [c0, d0] @ wg" by simp
      then show ?thesis by (rule comparable_common)
    qed
    with can_sound [OF it] cw have "can (t # ts) [c0, d0]" by simp
    moreover have "\<not> can (t # ts) [c0, d0]"
      using no_tail_meets_append tails p ct by metis
    ultimately show False by simp
  qed
qed

lemma apart_prepend:
  assumes ap: "apart L r0"
    and left: "\<And>v a b l. v \<in> L \<Longrightarrow> a @ v @ b = l @ g \<Longrightarrow> length (a @ v) \<le> length l"
  shows "apart L (g @ r0)"
  unfolding apart_def
proof (intro ballI allI impI)
  fix v a b l t
  assume v: "v \<in> L" and eq: "a @ v @ b = l @ (g @ r0) @ t"
  then have eq': "a @ v @ b = (l @ g) @ r0 @ t" by simp
  with ap v have "length (a @ v) \<le> length (l @ g) \<or> length ((l @ g) @ r0) \<le> length a"
    unfolding apart_def by blast
  then show "length (a @ v) \<le> length l \<or> length (l @ g @ r0) \<le> length a"
  proof
    assume le: "length (a @ v) \<le> length (l @ g)"
    have "(a @ v) @ b = (l @ g) @ r0 @ t" using eq' by simp
    from this le obtain x where "l @ g = (a @ v) @ x" "b = x @ r0 @ t" by (rule split_le)
    then have "a @ v @ x = l @ g" by simp
    from left [OF v this] show ?thesis by simp
  next
    assume "length ((l @ g) @ r0) \<le> length a"
    then show ?thesis by simp
  qed
qed

lemma grouped_clears:
  assumes A: "list_all consumes A" and A2: "A = Lit c0 # Lit d0 # A2"
    and tails: "no_tail_meets (Lit d0 # A2 @ [Close, Spaces, Open, Lit c, Close]) [c0, d0]"
    and c: "\<not> is_space c"
    and ap: "apart (lang (grouped A c)) (ins @ [c])"
  shows "\<not> occurs (lang (grouped A c))
           (sub_toks (grouped A c) (TGrp 1 # map TChr ins @ [TGrp 2]) s)"
  unfolding sub_toks_def
proof (rule no_own_occurrence)
  let ?M = "rx_rule (grouped A c) (TGrp 1 # map TChr ins @ [TGrp 2])"
  show sc: "scanned ?M (scan ?M s)" by (rule sub_toks_src(2) [OF consumes_grouped])
  show "\<forall>m r. Subst m r \<in> set (scan ?M s) \<longrightarrow> apart (lang (grouped A c)) r"
  proof (intro allI impI)
    fix m r assume "Subst m r \<in> set (scan ?M s)"
    from scanned_pieces [OF sc this] obtain s' where "?M s' = Some (m, r)" by blast
    from grouped_match [OF A this] obtain g where g: "g \<in> lang A" and r: "r = g @ ins @ [c]"
      by blast
    show "apart (lang (grouped A c)) r"
      unfolding r using ap
    proof (rule apart_prepend)
      fix v a b l
      assume "v \<in> lang (grouped A c)" "a @ v @ b = l @ g"
      then show "length (a @ v) \<le> length l"
        by (rule grouped_left_free [OF A2 tails c _ g])
    qed
  qed
  show "\<And>v s. v \<in> lang (grouped A c) \<Longrightarrow> prefix v s \<Longrightarrow> ?M s \<noteq> None"
    using rx_rule_not_None by blast
  show "[] \<notin> lang (grouped A c)" by (rule lang_nonempty [OF consumes_grouped])
qed

section \<open>Deciding the separation for the rules of the script\<close>

lemma can_rules:
  "can [] r = True"
  "can (Open # ts) r = can ts r"
  "can (Close # ts) r = can ts r"
  "can (Lit c # ts) [] = True"
  "can (Spaces # ts) [] = True"
  "x = c \<Longrightarrow> can (Lit c # ts) (x # xs) = can ts xs"
  "x \<noteq> c \<Longrightarrow> can (Lit c # ts) (x # xs) = False"
  "is_space x \<Longrightarrow> can (Spaces # ts) (x # xs) = skip_can (can ts) xs"
  "\<not> is_space x \<Longrightarrow> can (Spaces # ts) (x # xs) = False"
  by simp_all

lemma skip_can_rules:
  "skip_can (can ts) [] = True"
  "is_space x \<Longrightarrow> skip_can (can ts) (x # xs) = (can ts (x # xs) \<or> skip_can (can ts) xs)"
  "\<not> is_space x \<Longrightarrow> skip_can (can ts) (x # xs) = can ts (x # xs)"
  by simp_all

lemma no_tail_meets_rules:
  "no_tail_meets [] r = True"
  "no_tail_meets (Open # ts) r = no_tail_meets ts r"
  "no_tail_meets (Close # ts) r = no_tail_meets ts r"
  "x \<noteq> c \<Longrightarrow> no_tail_meets (Lit c # ts) (x # xs) = no_tail_meets ts (x # xs)"
  "x = c \<Longrightarrow> no_tail_meets (Lit c # ts) (x # xs) = (\<not> can ts xs \<and> no_tail_meets ts (x # xs))"
  "\<not> is_space x \<Longrightarrow> no_tail_meets (Spaces # ts) (x # xs) = no_tail_meets ts (x # xs)"
  "is_space x \<Longrightarrow> no_tail_meets (Spaces # ts) (x # xs)
     = (\<not> skip_can (can ts) xs \<and> no_tail_meets ts (x # xs))"
  by simp_all

lemma no_start_in_rules:
  "no_start_in p [] = True"
  "no_start_in p (x # xs) = (\<not> can p (x # xs) \<and> no_start_in p xs)"
  by simp_all

lemmas crit = can_rules skip_can_rules no_tail_meets_rules no_start_in_rules

declare can.simps [simp del] skip_can.simps [simp del] no_tail_meets.simps [simp del]
  no_start_in.simps [simp del]

lemma apart_header_header_tail: "apart (lang (header_toks)) (header_ins @ [125])"
proof (rule apart_criteria)
  show "no_tail_meets (header_toks) (header_ins @ [125])"
    by (simp add: header_toks_def header_group_def header_ins_def ev crit)
  show "no_start_in (header_toks) (header_ins @ [125])"
    by (simp add: header_toks_def header_group_def header_ins_def ev crit)
qed

lemma apart_header_newline_run_out: "apart (lang (header_toks)) (newline_run_out)"
proof (rule apart_criteria)
  show "no_tail_meets (header_toks) (newline_run_out)"
    by (simp add: header_toks_def header_group_def newline_run_out_def ev crit)
  show "no_start_in (header_toks) (newline_run_out)"
    by (simp add: header_toks_def header_group_def newline_run_out_def ev crit)
qed

lemma apart_header_body_run_out: "apart (lang (header_toks)) (body_run_out)"
proof (rule apart_criteria)
  show "no_tail_meets (header_toks) (body_run_out)"
    by (simp add: header_toks_def header_group_def body_run_out_def ev crit)
  show "no_start_in (header_toks) (body_run_out)"
    by (simp add: header_toks_def header_group_def body_run_out_def ev crit)
qed

lemma apart_header_mbox_block_out: "apart (lang (header_toks)) (mbox_block_out)"
proof (rule apart_criteria)
  show "no_tail_meets (header_toks) (mbox_block_out)"
    by (simp add: header_toks_def header_group_def mbox_block_out_def ev crit)
  show "no_start_in (header_toks) (mbox_block_out)"
    by (simp add: header_toks_def header_group_def mbox_block_out_def ev crit)
qed

lemma apart_header_addr_new: "apart (lang (header_toks)) (addr_new)"
proof (rule apart_criteria)
  show "no_tail_meets (header_toks) (addr_new)"
    by (simp add: header_toks_def header_group_def addr_new_def ev crit)
  show "no_start_in (header_toks) (addr_new)"
    by (simp add: header_toks_def header_group_def addr_new_def ev crit)
qed

lemma apart_newline_run_newline_run_out: "apart (lang (newline_run_toks)) (newline_run_out)"
proof (rule apart_criteria)
  show "no_tail_meets (newline_run_toks) (newline_run_out)"
    by (simp add: newline_run_toks_def newline_run_out_def ev crit)
  show "no_start_in (newline_run_toks) (newline_run_out)"
    by (simp add: newline_run_toks_def newline_run_out_def ev crit)
qed

lemma apart_newline_run_body_run_out: "apart (lang (newline_run_toks)) (body_run_out)"
proof (rule apart_criteria)
  show "no_tail_meets (newline_run_toks) (body_run_out)"
    by (simp add: newline_run_toks_def body_run_out_def ev crit)
  show "no_start_in (newline_run_toks) (body_run_out)"
    by (simp add: newline_run_toks_def body_run_out_def ev crit)
qed

lemma apart_newline_run_mbox_block_out: "apart (lang (newline_run_toks)) (mbox_block_out)"
proof (rule apart_criteria)
  show "no_tail_meets (newline_run_toks) (mbox_block_out)"
    by (simp add: newline_run_toks_def mbox_block_out_def ev crit)
  show "no_start_in (newline_run_toks) (mbox_block_out)"
    by (simp add: newline_run_toks_def mbox_block_out_def ev crit)
qed

lemma apart_newline_run_addr_new: "apart (lang (newline_run_toks)) (addr_new)"
proof (rule apart_criteria)
  show "no_tail_meets (newline_run_toks) (addr_new)"
    by (simp add: newline_run_toks_def addr_new_def ev crit)
  show "no_start_in (newline_run_toks) (addr_new)"
    by (simp add: newline_run_toks_def addr_new_def ev crit)
qed

lemma apart_body_run_body_run_out: "apart (lang (body_run_toks)) (body_run_out)"
proof (rule apart_criteria)
  show "no_tail_meets (body_run_toks) (body_run_out)"
    by (simp add: body_run_toks_def body_run_out_def ev crit)
  show "no_start_in (body_run_toks) (body_run_out)"
    by (simp add: body_run_toks_def body_run_out_def ev crit)
qed

lemma apart_body_run_mbox_block_out: "apart (lang (body_run_toks)) (mbox_block_out)"
proof (rule apart_criteria)
  show "no_tail_meets (body_run_toks) (mbox_block_out)"
    by (simp add: body_run_toks_def mbox_block_out_def ev crit)
  show "no_start_in (body_run_toks) (mbox_block_out)"
    by (simp add: body_run_toks_def mbox_block_out_def ev crit)
qed

lemma apart_body_run_addr_new: "apart (lang (body_run_toks)) (addr_new)"
proof (rule apart_criteria)
  show "no_tail_meets (body_run_toks) (addr_new)"
    by (simp add: body_run_toks_def addr_new_def ev crit)
  show "no_start_in (body_run_toks) (addr_new)"
    by (simp add: body_run_toks_def addr_new_def ev crit)
qed

lemma apart_block_mbox_block_out: "apart (lang (block_toks)) (mbox_block_out)"
proof (rule apart_criteria)
  show "no_tail_meets (block_toks) (mbox_block_out)"
    by (simp add: block_toks_def mbox_block_out_def ev crit)
  show "no_start_in (block_toks) (mbox_block_out)"
    by (simp add: block_toks_def mbox_block_out_def ev crit)
qed

lemma apart_block_addr_new: "apart (lang (block_toks)) (addr_new)"
proof (rule apart_criteria)
  show "no_tail_meets (block_toks) (addr_new)"
    by (simp add: block_toks_def addr_new_def ev crit)
  show "no_start_in (block_toks) (addr_new)"
    by (simp add: block_toks_def addr_new_def ev crit)
qed

lemma apart_addr_ref_addr_new: "apart (lang (map Lit addr_ref_old)) (addr_new)"
proof (rule apart_criteria)
  show "no_tail_meets (map Lit addr_ref_old) (addr_new)"
    by (simp add: addr_ref_old_def addr_new_def ev crit)
  show "no_start_in (map Lit addr_ref_old) (addr_new)"
    by (simp add: addr_ref_old_def addr_new_def ev crit)
qed

lemma apart_addr_clone_addr_new: "apart (lang (map Lit addr_clone_old)) (addr_new)"
proof (rule apart_criteria)
  show "no_tail_meets (map Lit addr_clone_old) (addr_new)"
    by (simp add: addr_clone_old_def addr_new_def ev crit)
  show "no_start_in (map Lit addr_clone_old) (addr_new)"
    by (simp add: addr_clone_old_def addr_new_def ev crit)
qed

lemma apart_warn_warn_import_new: "apart (lang (map Lit warn_import_old)) (warn_import_new)"
proof (rule apart_criteria)
  show "no_tail_meets (map Lit warn_import_old) (warn_import_new)"
    by (simp add: warn_import_old_def warn_import_new_def ev crit)
  show "no_start_in (map Lit warn_import_old) (warn_import_new)"
    by (simp add: warn_import_old_def warn_import_new_def ev crit)
qed

lemma apart_warn_header_tail: "apart (lang (map Lit warn_import_old)) (header_ins @ [125])"
proof (rule apart_criteria)
  show "no_tail_meets (map Lit warn_import_old) (header_ins @ [125])"
    by (simp add: warn_import_old_def header_ins_def ev crit)
  show "no_start_in (map Lit warn_import_old) (header_ins @ [125])"
    by (simp add: warn_import_old_def header_ins_def ev crit)
qed

lemma apart_warn_newline_run_out: "apart (lang (map Lit warn_import_old)) (newline_run_out)"
proof (rule apart_criteria)
  show "no_tail_meets (map Lit warn_import_old) (newline_run_out)"
    by (simp add: warn_import_old_def newline_run_out_def ev crit)
  show "no_start_in (map Lit warn_import_old) (newline_run_out)"
    by (simp add: warn_import_old_def newline_run_out_def ev crit)
qed

lemma apart_warn_clone_run_out: "apart (lang (map Lit warn_import_old)) (clone_run_out)"
proof (rule apart_criteria)
  show "no_tail_meets (map Lit warn_import_old) (clone_run_out)"
    by (simp add: warn_import_old_def clone_run_out_def ev crit)
  show "no_start_in (map Lit warn_import_old) (clone_run_out)"
    by (simp add: warn_import_old_def clone_run_out_def ev crit)
qed

lemma apart_warn_msg_block_out: "apart (lang (map Lit warn_import_old)) (msg_block_out)"
proof (rule apart_criteria)
  show "no_tail_meets (map Lit warn_import_old) (msg_block_out)"
    by (simp add: warn_import_old_def msg_block_out_def ev crit)
  show "no_start_in (map Lit warn_import_old) (msg_block_out)"
    by (simp add: warn_import_old_def msg_block_out_def ev crit)
qed

lemma apart_header_clone_run_out: "apart (lang (header_toks)) (clone_run_out)"
proof (rule apart_criteria)
  show "no_tail_meets (header_toks) (clone_run_out)"
    by (simp add: header_toks_def header_group_def clone_run_out_def ev crit)
  show "no_start_in (header_toks) (clone_run_out)"
    by (simp add: header_toks_def header_group_def clone_run_out_def ev crit)
qed

lemma apart_header_msg_block_out: "apart (lang (header_toks)) (msg_block_out)"
proof (rule apart_criteria)
  show "no_tail_meets (header_toks) (msg_block_out)"
    by (simp add: header_toks_def header_group_def msg_block_out_def ev crit)
  show "no_start_in (header_toks) (msg_block_out)"
    by (simp add: header_toks_def header_group_def msg_block_out_def ev crit)
qed

lemma apart_newline_run_clone_run_out: "apart (lang (newline_run_toks)) (clone_run_out)"
proof (rule apart_criteria)
  show "no_tail_meets (newline_run_toks) (clone_run_out)"
    by (simp add: newline_run_toks_def clone_run_out_def ev crit)
  show "no_start_in (newline_run_toks) (clone_run_out)"
    by (simp add: newline_run_toks_def clone_run_out_def ev crit)
qed

lemma apart_newline_run_msg_block_out: "apart (lang (newline_run_toks)) (msg_block_out)"
proof (rule apart_criteria)
  show "no_tail_meets (newline_run_toks) (msg_block_out)"
    by (simp add: newline_run_toks_def msg_block_out_def ev crit)
  show "no_start_in (newline_run_toks) (msg_block_out)"
    by (simp add: newline_run_toks_def msg_block_out_def ev crit)
qed

lemma apart_clone_run_clone_run_out: "apart (lang (clone_run_toks)) (clone_run_out)"
proof (rule apart_criteria)
  show "no_tail_meets (clone_run_toks) (clone_run_out)"
    by (simp add: clone_run_toks_def clone_run_out_def ev crit)
  show "no_start_in (clone_run_toks) (clone_run_out)"
    by (simp add: clone_run_toks_def clone_run_out_def ev crit)
qed

lemma apart_clone_run_msg_block_out: "apart (lang (clone_run_toks)) (msg_block_out)"
proof (rule apart_criteria)
  show "no_tail_meets (clone_run_toks) (msg_block_out)"
    by (simp add: clone_run_toks_def msg_block_out_def ev crit)
  show "no_start_in (clone_run_toks) (msg_block_out)"
    by (simp add: clone_run_toks_def msg_block_out_def ev crit)
qed

lemma apart_block_msg_block_out: "apart (lang (block_toks)) (msg_block_out)"
proof (rule apart_criteria)
  show "no_tail_meets (block_toks) (msg_block_out)"
    by (simp add: block_toks_def msg_block_out_def ev crit)
  show "no_start_in (block_toks) (msg_block_out)"
    by (simp add: block_toks_def msg_block_out_def ev crit)
qed

lemma apart_field_header_tail: "apart (lang (field_toks)) (header_ins @ [125])"
proof (rule apart_criteria)
  show "no_tail_meets (field_toks) (header_ins @ [125])"
    by (simp add: field_toks_def field_group_def header_ins_def ev crit)
  show "no_start_in (field_toks) (header_ins @ [125])"
    by (simp add: field_toks_def field_group_def header_ins_def ev crit)
qed

lemma apart_field_note_title_out: "apart (lang (field_toks)) (note_title_out)"
proof (rule apart_criteria)
  show "no_tail_meets (field_toks) (note_title_out)"
    by (simp add: field_toks_def field_group_def note_title_out_def ev crit)
  show "no_start_in (field_toks) (note_title_out)"
    by (simp add: field_toks_def field_group_def note_title_out_def ev crit)
qed

lemma apart_field_note_run_out: "apart (lang (field_toks)) (note_run_out)"
proof (rule apart_criteria)
  show "no_tail_meets (field_toks) (note_run_out)"
    by (simp add: field_toks_def field_group_def note_run_out_def ev crit)
  show "no_start_in (field_toks) (note_run_out)"
    by (simp add: field_toks_def field_group_def note_run_out_def ev crit)
qed

lemma apart_field_vcf_block_out: "apart (lang (field_toks)) (vcf_block_out)"
proof (rule apart_criteria)
  show "no_tail_meets (field_toks) (vcf_block_out)"
    by (simp add: field_toks_def field_group_def vcf_block_out_def ev crit)
  show "no_start_in (field_toks) (vcf_block_out)"
    by (simp add: field_toks_def field_group_def vcf_block_out_def ev crit)
qed

lemma apart_field_filter_out: "apart (lang (field_toks)) (filter_out)"
proof (rule apart_criteria)
  show "no_tail_meets (field_toks) (filter_out)"
    by (simp add: field_toks_def field_group_def filter_out_def ev crit)
  show "no_start_in (field_toks) (filter_out)"
    by (simp add: field_toks_def field_group_def filter_out_def ev crit)
qed

lemma apart_note_title_note_title_out: "apart (lang (note_title_toks)) (note_title_out)"
proof (rule apart_criteria)
  show "no_tail_meets (note_title_toks) (note_title_out)"
    by (simp add: note_title_toks_def note_title_out_def ev crit)
  show "no_start_in (note_title_toks) (note_title_out)"
    by (simp add: note_title_toks_def note_title_out_def ev crit)
qed

lemma apart_note_title_note_run_out: "apart (lang (note_title_toks)) (note_run_out)"
proof (rule apart_criteria)
  show "no_tail_meets (note_title_toks) (note_run_out)"
    by (simp add: note_title_toks_def note_run_out_def ev crit)
  show "no_start_in (note_title_toks) (note_run_out)"
    by (simp add: note_title_toks_def note_run_out_def ev crit)
qed

lemma apart_note_title_vcf_block_out: "apart (lang (note_title_toks)) (vcf_block_out)"
proof (rule apart_criteria)
  show "no_tail_meets (note_title_toks) (vcf_block_out)"
    by (simp add: note_title_toks_def vcf_block_out_def ev crit)
  show "no_start_in (note_title_toks) (vcf_block_out)"
    by (simp add: note_title_toks_def vcf_block_out_def ev crit)
qed

lemma apart_note_title_filter_out: "apart (lang (note_title_toks)) (filter_out)"
proof (rule apart_criteria)
  show "no_tail_meets (note_title_toks) (filter_out)"
    by (simp add: note_title_toks_def filter_out_def ev crit)
  show "no_start_in (note_title_toks) (filter_out)"
    by (simp add: note_title_toks_def filter_out_def ev crit)
qed

lemma apart_note_run_note_run_out: "apart (lang (note_run_toks)) (note_run_out)"
proof (rule apart_criteria)
  show "no_tail_meets (note_run_toks) (note_run_out)"
    by (simp add: note_run_toks_def note_run_out_def ev crit)
  show "no_start_in (note_run_toks) (note_run_out)"
    by (simp add: note_run_toks_def note_run_out_def ev crit)
qed

lemma apart_note_run_vcf_block_out: "apart (lang (note_run_toks)) (vcf_block_out)"
proof (rule apart_criteria)
  show "no_tail_meets (note_run_toks) (vcf_block_out)"
    by (simp add: note_run_toks_def vcf_block_out_def ev crit)
  show "no_start_in (note_run_toks) (vcf_block_out)"
    by (simp add: note_run_toks_def vcf_block_out_def ev crit)
qed

lemma apart_note_run_filter_out: "apart (lang (note_run_toks)) (filter_out)"
proof (rule apart_criteria)
  show "no_tail_meets (note_run_toks) (filter_out)"
    by (simp add: note_run_toks_def filter_out_def ev crit)
  show "no_start_in (note_run_toks) (filter_out)"
    by (simp add: note_run_toks_def filter_out_def ev crit)
qed

lemma apart_block_vcf_block_out: "apart (lang (block_toks)) (vcf_block_out)"
proof (rule apart_criteria)
  show "no_tail_meets (block_toks) (vcf_block_out)"
    by (simp add: block_toks_def vcf_block_out_def ev crit)
  show "no_start_in (block_toks) (vcf_block_out)"
    by (simp add: block_toks_def vcf_block_out_def ev crit)
qed

lemma apart_block_filter_out: "apart (lang (block_toks)) (filter_out)"
proof (rule apart_criteria)
  show "no_tail_meets (block_toks) (filter_out)"
    by (simp add: block_toks_def filter_out_def ev crit)
  show "no_start_in (block_toks) (filter_out)"
    by (simp add: block_toks_def filter_out_def ev crit)
qed

lemma apart_filter_filter_out: "apart (lang (filter_toks)) (filter_out)"
proof (rule apart_criteria)
  show "no_tail_meets (filter_toks) (filter_out)"
    by (simp add: filter_toks_def filter_out_def ev crit)
  show "no_start_in (filter_toks) (filter_out)"
    by (simp add: filter_toks_def filter_out_def ev crit)
qed

lemma apart_header_addr_ref_old: "apart (lang (header_toks)) (addr_ref_old)"
proof (rule apart_criteria)
  show "no_tail_meets (header_toks) (addr_ref_old)"
    by (simp add: header_toks_def header_group_def addr_ref_old_def ev crit)
  show "no_start_in (header_toks) (addr_ref_old)"
    by (simp add: header_toks_def header_group_def addr_ref_old_def ev crit)
qed

lemma apart_header_addr_clone_old: "apart (lang (header_toks)) (addr_clone_old)"
proof (rule apart_criteria)
  show "no_tail_meets (header_toks) (addr_clone_old)"
    by (simp add: header_toks_def header_group_def addr_clone_old_def ev crit)
  show "no_start_in (header_toks) (addr_clone_old)"
    by (simp add: header_toks_def header_group_def addr_clone_old_def ev crit)
qed

lemma apart_newline_run_addr_ref_old: "apart (lang (newline_run_toks)) (addr_ref_old)"
proof (rule apart_criteria)
  show "no_tail_meets (newline_run_toks) (addr_ref_old)"
    by (simp add: newline_run_toks_def addr_ref_old_def ev crit)
  show "no_start_in (newline_run_toks) (addr_ref_old)"
    by (simp add: newline_run_toks_def addr_ref_old_def ev crit)
qed

lemma apart_newline_run_addr_clone_old: "apart (lang (newline_run_toks)) (addr_clone_old)"
proof (rule apart_criteria)
  show "no_tail_meets (newline_run_toks) (addr_clone_old)"
    by (simp add: newline_run_toks_def addr_clone_old_def ev crit)
  show "no_start_in (newline_run_toks) (addr_clone_old)"
    by (simp add: newline_run_toks_def addr_clone_old_def ev crit)
qed

lemma apart_body_run_addr_ref_old: "apart (lang (body_run_toks)) (addr_ref_old)"
proof (rule apart_criteria)
  show "no_tail_meets (body_run_toks) (addr_ref_old)"
    by (simp add: body_run_toks_def addr_ref_old_def ev crit)
  show "no_start_in (body_run_toks) (addr_ref_old)"
    by (simp add: body_run_toks_def addr_ref_old_def ev crit)
qed

lemma apart_body_run_addr_clone_old: "apart (lang (body_run_toks)) (addr_clone_old)"
proof (rule apart_criteria)
  show "no_tail_meets (body_run_toks) (addr_clone_old)"
    by (simp add: body_run_toks_def addr_clone_old_def ev crit)
  show "no_start_in (body_run_toks) (addr_clone_old)"
    by (simp add: body_run_toks_def addr_clone_old_def ev crit)
qed

lemma apart_block_addr_ref_old: "apart (lang (block_toks)) (addr_ref_old)"
proof (rule apart_criteria)
  show "no_tail_meets (block_toks) (addr_ref_old)"
    by (simp add: block_toks_def addr_ref_old_def ev crit)
  show "no_start_in (block_toks) (addr_ref_old)"
    by (simp add: block_toks_def addr_ref_old_def ev crit)
qed

lemma apart_block_addr_clone_old: "apart (lang (block_toks)) (addr_clone_old)"
proof (rule apart_criteria)
  show "no_tail_meets (block_toks) (addr_clone_old)"
    by (simp add: block_toks_def addr_clone_old_def ev crit)
  show "no_start_in (block_toks) (addr_clone_old)"
    by (simp add: block_toks_def addr_clone_old_def ev crit)
qed

lemma apart_addr_ref_addr_clone_old: "apart (lang (map Lit addr_ref_old)) (addr_clone_old)"
proof (rule apart_criteria)
  show "no_tail_meets (map Lit addr_ref_old) (addr_clone_old)"
    by (simp add: addr_ref_old_def addr_clone_old_def ev crit)
  show "no_start_in (map Lit addr_ref_old) (addr_clone_old)"
    by (simp add: addr_ref_old_def addr_clone_old_def ev crit)
qed

lemma lits_consumes: "s \<noteq> [] \<Longrightarrow> \<exists>t\<in>set (lits s @ rest). consumes t"
  by (cases s) (simp_all add: lits_def esc_def)

lemma lits_consumes_only: "s \<noteq> [] \<Longrightarrow> \<exists>t\<in>set (lits s). consumes t"
  using lits_consumes [of s "[]"] by simp

lemma consuming:
  "\<exists>t\<in>set newline_run_toks. consumes t"
  "\<exists>t\<in>set body_run_toks. consumes t"
  "\<exists>t\<in>set clone_run_toks. consumes t"
  "\<exists>t\<in>set block_toks. consumes t"
  "\<exists>t\<in>set note_title_toks. consumes t"
  "\<exists>t\<in>set note_run_toks. consumes t"
  "\<exists>t\<in>set filter_toks. consumes t"
  unfolding newline_run_toks_def body_run_toks_def clone_run_toks_def block_toks_def
    note_title_toks_def note_run_toks_def filter_toks_def
  by (simp_all only: lits_consumes lits_consumes_only list.simps(3) not_False_eq_True)

lemma list_all_lits: "list_all consumes (lits s)"
  by (induction s) (simp_all add: lits_def esc_def)

lemma header_grouped: "header_toks = grouped header_group 125"
  by (simp add: header_toks_def grouped_def ev)

lemma field_grouped: "field_toks = grouped field_group 125"
  by (simp add: field_toks_def grouped_def ev)

lemma header_group_consumes: "list_all consumes header_group"
  by (simp add: header_group_def list_all_lits)

lemma field_group_consumes: "list_all consumes field_group"
  by (simp add: field_group_def list_all_lits)

lemma header_group_head: "header_group = Lit 102 # Lit 110 # drop 2 header_group"
  by (simp add: header_group_def ev)

lemma field_group_head: "field_group = Lit 102 # Lit 110 # drop 2 field_group"
  by (simp add: field_group_def ev)

lemma header_group_tails:
  "no_tail_meets (Lit 110 # drop 2 header_group @ [Close, Spaces, Open, Lit 125, Close]) [102, 110]"
  by (simp add: header_group_def ev crit)

lemma field_group_tails:
  "no_tail_meets (Lit 110 # drop 2 field_group @ [Close, Spaces, Open, Lit 125, Close]) [102, 110]"
  by (simp add: field_group_def ev crit)

lemma not_space_brace: "\<not> is_space 125"
  by (simp add: ev)

lemma header_clears: "\<not> occurs (lang header_toks) (sub_toks header_toks header_tpl s)"
  unfolding header_grouped header_tpl_def
  using header_group_consumes header_group_head header_group_tails not_space_brace
    apart_header_header_tail [unfolded header_grouped]
  by (rule grouped_clears)

lemma field_clears: "\<not> occurs (lang field_toks) (sub_toks field_toks header_tpl s)"
  unfolding field_grouped header_tpl_def
  using field_group_consumes field_group_head field_group_tails not_space_brace
    apart_field_header_tail [unfolded field_grouped]
  by (rule grouped_clears)

lemma header_preserves:
  "apart L (header_ins @ [125]) \<Longrightarrow> \<not> occurs L s \<Longrightarrow> \<not> occurs L (sub_toks header_toks header_tpl s)"
  unfolding header_grouped header_tpl_def
  using header_group_consumes by (rule grouped_preserves)

lemma field_preserves:
  "apart L (header_ins @ [125]) \<Longrightarrow> \<not> occurs L s \<Longrightarrow> \<not> occurs L (sub_toks field_toks header_tpl s)"
  unfolding field_grouped header_tpl_def
  using field_group_consumes by (rule grouped_preserves)

lemma literals_nonempty:
  "addr_ref_old \<noteq> []" "addr_clone_old \<noteq> []" "warn_import_old \<noteq> []"
  by (simp_all add: addr_ref_old_def addr_clone_old_def warn_import_old_def esc_def)

lemma occurs_lits [simp]: "occurs (lang (map Lit old)) s \<longleftrightarrow> sublist old s"
  by (simp add: lang_map_Lit)

lemmas apart_lit = apart_addr_ref_addr_new [unfolded lang_map_Lit]
  apart_addr_clone_addr_new [unfolded lang_map_Lit]
  apart_warn_warn_import_new [unfolded lang_map_Lit]

lemma mbox_clean:
  "\<not> occurs (lang header_toks) (mbox_steps s)"
  "\<not> occurs (lang newline_run_toks) (mbox_steps s)"
  "\<not> occurs (lang body_run_toks) (mbox_steps s)"
  "\<not> occurs (lang block_toks) (mbox_steps s)"
  "\<not> sublist addr_ref_old (mbox_steps s)"
  "\<not> sublist addr_clone_old (mbox_steps s)"
proof -
  define s1 where "s1 = sub_toks header_toks header_tpl s"
  define s2 where "s2 = sub_toks newline_run_toks (map TChr newline_run_out) s1"
  define s3 where "s3 = sub_toks body_run_toks (map TChr body_run_out) s2"
  define s4 where "s4 = sub_toks block_toks (map TChr mbox_block_out) s3"
  define s5 where "s5 = str_replace addr_ref_old addr_new s4"
  define s6 where "s6 = str_replace addr_clone_old addr_new s5"
  have last: "mbox_steps s = s6"
    by (simp add: mbox_steps_def s1_def s2_def s3_def s4_def s5_def s6_def)
  have c1_1: "\<not> occurs (lang header_toks) s1"
    unfolding s1_def by (rule header_clears)
  have c1_2: "\<not> occurs (lang header_toks) s2"
    using c1_1 unfolding s2_def by (rule sub_toks_preserves [OF consuming(1) apart_header_newline_run_out])
  have c1_3: "\<not> occurs (lang header_toks) s3"
    using c1_2 unfolding s3_def by (rule sub_toks_preserves [OF consuming(2) apart_header_body_run_out])
  have c1_4: "\<not> occurs (lang header_toks) s4"
    using c1_3 unfolding s4_def by (rule sub_toks_preserves [OF consuming(4) apart_header_mbox_block_out])
  have c1_5: "\<not> occurs (lang header_toks) s5"
    using c1_4 unfolding s5_def by (rule str_replace_preserves [OF literals_nonempty(1) apart_header_addr_new])
  have c1_6: "\<not> occurs (lang header_toks) s6"
    using c1_5 unfolding s6_def by (rule str_replace_preserves [OF literals_nonempty(2) apart_header_addr_new])
  have c2_2: "\<not> occurs (lang newline_run_toks) s2"
    unfolding s2_def by (rule sub_toks_clears [OF consuming(1) apart_newline_run_newline_run_out])
  have c2_3: "\<not> occurs (lang newline_run_toks) s3"
    using c2_2 unfolding s3_def by (rule sub_toks_preserves [OF consuming(2) apart_newline_run_body_run_out])
  have c2_4: "\<not> occurs (lang newline_run_toks) s4"
    using c2_3 unfolding s4_def by (rule sub_toks_preserves [OF consuming(4) apart_newline_run_mbox_block_out])
  have c2_5: "\<not> occurs (lang newline_run_toks) s5"
    using c2_4 unfolding s5_def by (rule str_replace_preserves [OF literals_nonempty(1) apart_newline_run_addr_new])
  have c2_6: "\<not> occurs (lang newline_run_toks) s6"
    using c2_5 unfolding s6_def by (rule str_replace_preserves [OF literals_nonempty(2) apart_newline_run_addr_new])
  have c3_3: "\<not> occurs (lang body_run_toks) s3"
    unfolding s3_def by (rule sub_toks_clears [OF consuming(2) apart_body_run_body_run_out])
  have c3_4: "\<not> occurs (lang body_run_toks) s4"
    using c3_3 unfolding s4_def by (rule sub_toks_preserves [OF consuming(4) apart_body_run_mbox_block_out])
  have c3_5: "\<not> occurs (lang body_run_toks) s5"
    using c3_4 unfolding s5_def by (rule str_replace_preserves [OF literals_nonempty(1) apart_body_run_addr_new])
  have c3_6: "\<not> occurs (lang body_run_toks) s6"
    using c3_5 unfolding s6_def by (rule str_replace_preserves [OF literals_nonempty(2) apart_body_run_addr_new])
  have c4_4: "\<not> occurs (lang block_toks) s4"
    unfolding s4_def by (rule sub_toks_clears [OF consuming(4) apart_block_mbox_block_out])
  have c4_5: "\<not> occurs (lang block_toks) s5"
    using c4_4 unfolding s5_def by (rule str_replace_preserves [OF literals_nonempty(1) apart_block_addr_new])
  have c4_6: "\<not> occurs (lang block_toks) s6"
    using c4_5 unfolding s6_def by (rule str_replace_preserves [OF literals_nonempty(2) apart_block_addr_new])
  have c5_5: "\<not> sublist addr_ref_old s5"
    unfolding s5_def by (rule str_replace_clears [OF literals_nonempty(1) apart_lit(1)])
  have c5_6: "\<not> sublist addr_ref_old s6"
    using c5_5 unfolding s6_def occurs_single [symmetric] by (rule str_replace_preserves [OF literals_nonempty(2) apart_addr_ref_addr_new [unfolded lang_map_Lit]])
  have c6_6: "\<not> sublist addr_clone_old s6"
    unfolding s6_def by (rule str_replace_clears [OF literals_nonempty(2) apart_lit(2)])
  show
    "\<not> occurs (lang header_toks) (mbox_steps s)"
    "\<not> occurs (lang newline_run_toks) (mbox_steps s)"
    "\<not> occurs (lang body_run_toks) (mbox_steps s)"
    "\<not> occurs (lang block_toks) (mbox_steps s)"
    "\<not> sublist addr_ref_old (mbox_steps s)"
    "\<not> sublist addr_clone_old (mbox_steps s)"
    unfolding last by (fact c1_6 c2_6 c3_6 c4_6 c5_6 c6_6)+
qed

lemma mbox_steps_fixed: "mbox_steps (mbox_steps s) = mbox_steps s"
  unfolding mbox_steps_def [of "mbox_steps s"]
  by (simp add: sub_toks_unchanged str_replace_unchanged mbox_clean)

lemma msg_clean:
  "\<not> sublist warn_import_old (msg_steps s)"
  "\<not> occurs (lang header_toks) (msg_steps s)"
  "\<not> occurs (lang newline_run_toks) (msg_steps s)"
  "\<not> occurs (lang clone_run_toks) (msg_steps s)"
  "\<not> occurs (lang block_toks) (msg_steps s)"
proof -
  define s1 where "s1 = str_replace warn_import_old warn_import_new s"
  define s2 where "s2 = sub_toks header_toks header_tpl s1"
  define s3 where "s3 = sub_toks newline_run_toks (map TChr newline_run_out) s2"
  define s4 where "s4 = sub_toks clone_run_toks (map TChr clone_run_out) s3"
  define s5 where "s5 = sub_toks block_toks (map TChr msg_block_out) s4"
  have last: "msg_steps s = s5"
    by (simp add: msg_steps_def s1_def s2_def s3_def s4_def s5_def)
  have c1_1: "\<not> sublist warn_import_old s1"
    unfolding s1_def by (rule str_replace_clears [OF literals_nonempty(3) apart_lit(3)])
  have c1_2: "\<not> sublist warn_import_old s2"
    using c1_1 unfolding s2_def occurs_single [symmetric] by (rule header_preserves [OF apart_warn_header_tail [unfolded lang_map_Lit]])
  have c1_3: "\<not> sublist warn_import_old s3"
    using c1_2 unfolding s3_def occurs_single [symmetric] by (rule sub_toks_preserves [OF consuming(1) apart_warn_newline_run_out [unfolded lang_map_Lit]])
  have c1_4: "\<not> sublist warn_import_old s4"
    using c1_3 unfolding s4_def occurs_single [symmetric] by (rule sub_toks_preserves [OF consuming(3) apart_warn_clone_run_out [unfolded lang_map_Lit]])
  have c1_5: "\<not> sublist warn_import_old s5"
    using c1_4 unfolding s5_def occurs_single [symmetric] by (rule sub_toks_preserves [OF consuming(4) apart_warn_msg_block_out [unfolded lang_map_Lit]])
  have c2_2: "\<not> occurs (lang header_toks) s2"
    unfolding s2_def by (rule header_clears)
  have c2_3: "\<not> occurs (lang header_toks) s3"
    using c2_2 unfolding s3_def by (rule sub_toks_preserves [OF consuming(1) apart_header_newline_run_out])
  have c2_4: "\<not> occurs (lang header_toks) s4"
    using c2_3 unfolding s4_def by (rule sub_toks_preserves [OF consuming(3) apart_header_clone_run_out])
  have c2_5: "\<not> occurs (lang header_toks) s5"
    using c2_4 unfolding s5_def by (rule sub_toks_preserves [OF consuming(4) apart_header_msg_block_out])
  have c3_3: "\<not> occurs (lang newline_run_toks) s3"
    unfolding s3_def by (rule sub_toks_clears [OF consuming(1) apart_newline_run_newline_run_out])
  have c3_4: "\<not> occurs (lang newline_run_toks) s4"
    using c3_3 unfolding s4_def by (rule sub_toks_preserves [OF consuming(3) apart_newline_run_clone_run_out])
  have c3_5: "\<not> occurs (lang newline_run_toks) s5"
    using c3_4 unfolding s5_def by (rule sub_toks_preserves [OF consuming(4) apart_newline_run_msg_block_out])
  have c4_4: "\<not> occurs (lang clone_run_toks) s4"
    unfolding s4_def by (rule sub_toks_clears [OF consuming(3) apart_clone_run_clone_run_out])
  have c4_5: "\<not> occurs (lang clone_run_toks) s5"
    using c4_4 unfolding s5_def by (rule sub_toks_preserves [OF consuming(4) apart_clone_run_msg_block_out])
  have c5_5: "\<not> occurs (lang block_toks) s5"
    unfolding s5_def by (rule sub_toks_clears [OF consuming(4) apart_block_msg_block_out])
  show
    "\<not> sublist warn_import_old (msg_steps s)"
    "\<not> occurs (lang header_toks) (msg_steps s)"
    "\<not> occurs (lang newline_run_toks) (msg_steps s)"
    "\<not> occurs (lang clone_run_toks) (msg_steps s)"
    "\<not> occurs (lang block_toks) (msg_steps s)"
    unfolding last by (fact c1_5 c2_5 c3_5 c4_5 c5_5)+
qed

lemma msg_steps_fixed: "msg_steps (msg_steps s) = msg_steps s"
  unfolding msg_steps_def [of "msg_steps s"]
  by (simp add: sub_toks_unchanged str_replace_unchanged msg_clean)

lemma vcf_clean:
  "\<not> occurs (lang field_toks) (vcf_steps s)"
  "\<not> occurs (lang note_title_toks) (vcf_steps s)"
  "\<not> occurs (lang note_run_toks) (vcf_steps s)"
  "\<not> occurs (lang block_toks) (vcf_steps s)"
  "\<not> occurs (lang filter_toks) (vcf_steps s)"
proof -
  define s1 where "s1 = sub_toks field_toks header_tpl s"
  define s2 where "s2 = sub_toks note_title_toks (map TChr note_title_out) s1"
  define s3 where "s3 = sub_toks note_run_toks (map TChr note_run_out) s2"
  define s4 where "s4 = sub_toks block_toks (map TChr vcf_block_out) s3"
  define s5 where "s5 = sub_toks filter_toks (map TChr filter_out) s4"
  have last: "vcf_steps s = s5"
    by (simp add: vcf_steps_def s1_def s2_def s3_def s4_def s5_def)
  have c1_1: "\<not> occurs (lang field_toks) s1"
    unfolding s1_def by (rule field_clears)
  have c1_2: "\<not> occurs (lang field_toks) s2"
    using c1_1 unfolding s2_def by (rule sub_toks_preserves [OF consuming(5) apart_field_note_title_out])
  have c1_3: "\<not> occurs (lang field_toks) s3"
    using c1_2 unfolding s3_def by (rule sub_toks_preserves [OF consuming(6) apart_field_note_run_out])
  have c1_4: "\<not> occurs (lang field_toks) s4"
    using c1_3 unfolding s4_def by (rule sub_toks_preserves [OF consuming(4) apart_field_vcf_block_out])
  have c1_5: "\<not> occurs (lang field_toks) s5"
    using c1_4 unfolding s5_def by (rule sub_toks_preserves [OF consuming(7) apart_field_filter_out])
  have c2_2: "\<not> occurs (lang note_title_toks) s2"
    unfolding s2_def by (rule sub_toks_clears [OF consuming(5) apart_note_title_note_title_out])
  have c2_3: "\<not> occurs (lang note_title_toks) s3"
    using c2_2 unfolding s3_def by (rule sub_toks_preserves [OF consuming(6) apart_note_title_note_run_out])
  have c2_4: "\<not> occurs (lang note_title_toks) s4"
    using c2_3 unfolding s4_def by (rule sub_toks_preserves [OF consuming(4) apart_note_title_vcf_block_out])
  have c2_5: "\<not> occurs (lang note_title_toks) s5"
    using c2_4 unfolding s5_def by (rule sub_toks_preserves [OF consuming(7) apart_note_title_filter_out])
  have c3_3: "\<not> occurs (lang note_run_toks) s3"
    unfolding s3_def by (rule sub_toks_clears [OF consuming(6) apart_note_run_note_run_out])
  have c3_4: "\<not> occurs (lang note_run_toks) s4"
    using c3_3 unfolding s4_def by (rule sub_toks_preserves [OF consuming(4) apart_note_run_vcf_block_out])
  have c3_5: "\<not> occurs (lang note_run_toks) s5"
    using c3_4 unfolding s5_def by (rule sub_toks_preserves [OF consuming(7) apart_note_run_filter_out])
  have c4_4: "\<not> occurs (lang block_toks) s4"
    unfolding s4_def by (rule sub_toks_clears [OF consuming(4) apart_block_vcf_block_out])
  have c4_5: "\<not> occurs (lang block_toks) s5"
    using c4_4 unfolding s5_def by (rule sub_toks_preserves [OF consuming(7) apart_block_filter_out])
  have c5_5: "\<not> occurs (lang filter_toks) s5"
    unfolding s5_def by (rule sub_toks_clears [OF consuming(7) apart_filter_filter_out])
  show
    "\<not> occurs (lang field_toks) (vcf_steps s)"
    "\<not> occurs (lang note_title_toks) (vcf_steps s)"
    "\<not> occurs (lang note_run_toks) (vcf_steps s)"
    "\<not> occurs (lang block_toks) (vcf_steps s)"
    "\<not> occurs (lang filter_toks) (vcf_steps s)"
    unfolding last by (fact c1_5 c2_5 c3_5 c4_5 c5_5)+
qed

lemma vcf_steps_fixed: "vcf_steps (vcf_steps s) = vcf_steps s"
  unfolding vcf_steps_def [of "vcf_steps s"]
  by (simp add: sub_toks_unchanged str_replace_unchanged vcf_clean)

section \<open>A construct written with given runs of white space\<close>


lemma fill_length [simp]: "length (fill p ws) = length p"
  by (induction p ws rule: fill.induct) simp_all


lemma runs_ok_Nil [simp]: "runs_ok [] ws \<longleftrightarrow> ws = []"
  by (auto simp: runs_ok_def)

lemma runs_ok_Lit [simp]: "runs_ok (Lit c # p) ws \<longleftrightarrow> runs_ok p ws"
  by (simp add: runs_ok_def)

lemma runs_ok_Open [simp]: "runs_ok (Open # p) ws \<longleftrightarrow> runs_ok p ws"
  by (simp add: runs_ok_def)

lemma runs_ok_Close [simp]: "runs_ok (Close # p) ws \<longleftrightarrow> runs_ok p ws"
  by (simp add: runs_ok_def)

lemma runs_ok_Spaces:
  "runs_ok (Spaces # p) ws \<longleftrightarrow>
     (\<exists>w ws'. ws = w # ws' \<and> w \<noteq> [] \<and> list_all is_space w \<and> runs_ok p ws')"
  by (cases ws) (auto simp: runs_ok_def)

lemma inst_fill: "runs_ok p ws \<Longrightarrow> inst p (fill p ws)"
proof (induction p arbitrary: ws)
  case Nil
  then show ?case by simp
next
  case (Cons t p)
  then show ?case by (cases t) (auto simp: runs_ok_Spaces)
qed

lemma starts_plain_fill:
  "starts_plain p \<Longrightarrow> \<exists>c t. concat (fill p ws) = c # t \<and> \<not> is_space c"
proof (induction p)
  case Nil
  then show ?case by simp
next
  case (Cons t p)
  then show ?case by (cases t) auto
qed

lemma takeWhile_run:
  assumes "list_all is_space w" and "\<not> is_space c"
  shows "takeWhile is_space (w @ c # t) = w"
  using assms by (induction w) simp_all

lemma try_spaces_first:
  "0 < n \<Longrightarrow> k (drop n s) = Some ps \<Longrightarrow> try_spaces k s n = Some (take n s # ps)"
  by (cases n) simp_all

lemma rx_match_fill:
  "delimited p \<Longrightarrow> runs_ok p ws \<Longrightarrow> rx_match p (concat (fill p ws) @ rest) = Some (fill p ws)"
proof (induction p arbitrary: ws)
  case Nil
  then show ?case by simp
next
  case (Cons t p)
  show ?case
  proof (cases t)
    case (Lit c)
    with Cons show ?thesis by simp
  next
    case Spaces
    with Cons.prems obtain w ws' where ws: "ws = w # ws'" and w: "w \<noteq> []" "list_all is_space w"
      and r: "runs_ok p ws'" and sp: "starts_plain p" and d: "delimited p"
      by (auto simp: runs_ok_Spaces)
    from starts_plain_fill [OF sp] obtain c t' where c: "concat (fill p ws') = c # t'" "\<not> is_space c"
      by blast
    let ?s = "w @ concat (fill p ws') @ rest"
    have run: "takeWhile is_space ?s = w"
      using takeWhile_run [OF w(2) c(2)] c(1) by simp
    have "rx_match p (drop (length w) ?s) = Some (fill p ws')"
      using Cons.IH [OF d r] by simp
    with w(1) have "try_spaces (rx_match p) ?s (length w) = Some (take (length w) ?s # fill p ws')"
      by (intro try_spaces_first) simp_all
    then show ?thesis using Spaces ws run by simp
  next
    case Open
    with Cons show ?thesis by simp
  next
    case Close
    with Cons show ?thesis by simp
  qed
qed



lemma delimited_grouped: "delimited (grouped A c) \<longleftrightarrow> delimited (A @ [Close, Spaces, Open, Lit c, Close])"
  by (simp add: grouped_def)

lemma delimited_patterns:
  "delimited header_toks" "delimited field_toks" "delimited newline_run_toks"
  "delimited body_run_toks" "delimited clone_run_toks" "delimited block_toks"
  "delimited note_title_toks" "delimited note_run_toks" "delimited filter_toks"
          apply (simp add: header_toks_def header_group_def ev)
         apply (simp add: field_toks_def field_group_def ev)
        apply (simp add: newline_run_toks_def ev)
       apply (simp add: body_run_toks_def ev)
      apply (simp add: clone_run_toks_def ev)
     apply (simp add: block_toks_def ev)
    apply (simp add: note_title_toks_def ev)
   apply (simp add: note_run_toks_def ev)
  apply (simp add: filter_toks_def ev)
  done

lemma filter_Spaces_lits: "filter ((=) Spaces) (lits s) = []"
  by (induction s) (simp_all add: lits_def esc_def)

lemma body_call_runs:
  "runs_ok body_run_toks [esc '' '', esc '' '', esc '' '']"
  "concat (fill body_run_toks [esc '' '', esc '' '', esc '' '']) = c2_body_call"
  by (simp_all add: runs_ok_def body_run_toks_def filter_Spaces_lits c2_body_call_def ev)

section \<open>Occurrences that a rule leaves standing\<close>

lemma occurrence_survives:
  assumes "\<forall>ps1 m r' ps2. ps = ps1 @ Subst m r' # ps2 \<longrightarrow>
      m \<noteq> [] \<and> (length (src ps1 @ m) \<le> length l \<or> length (l @ r) \<le> length (src ps1))"
    and "src ps = l @ r @ t"
  shows "\<exists>A C. ps = A @ map Copy r @ C \<and> src A = l"
  using assms
proof (induction ps arbitrary: l r)
  case Nil
  then have "[] = [] @ map Copy r @ []" "src [] = l" by simp_all
  then show ?case by blast
next
  case (Cons p ps)
  note H = Cons.prems(1) [rule_format]
  show ?case
  proof (cases p)
    case (Copy x)
    show ?thesis
    proof (cases l)
      case Nil
      note l = Nil
      show ?thesis
      proof (cases r)
        case Nil
        with l have "p # ps = [] @ map Copy r @ (p # ps)" "src [] = l" by simp_all
        then show ?thesis by blast
      next
        case (Cons y r')
        with Cons.prems(2) l Copy have y: "x = y" and s: "src ps = [] @ r' @ t" by simp_all
        have h: "\<forall>ps1 m r'' ps2. ps = ps1 @ Subst m r'' # ps2 \<longrightarrow>
            m \<noteq> [] \<and> (length (src ps1 @ m) \<le> length ([]::pystr)
              \<or> length ([] @ r') \<le> length (src ps1))"
        proof (intro allI impI)
          fix ps1 m r'' ps2 assume "ps = ps1 @ Subst m r'' # ps2"
          then have "p # ps = (p # ps1) @ Subst m r'' # ps2" by simp
          from H [OF this] l Cons Copy
          show "m \<noteq> [] \<and> (length (src ps1 @ m) \<le> length ([]::pystr)
              \<or> length ([] @ r') \<le> length (src ps1))" by auto
        qed
        from Cons.IH [OF h s] obtain A C where A: "ps = A @ map Copy r' @ C" "src A = []"
          by blast
        have "A = []"
        proof (cases A)
          case Nil
          then show ?thesis .
        next
          case (Cons q A')
          show ?thesis
          proof (cases q)
            case (Copy z)
            with Cons A(2) show ?thesis by simp
          next
            case (Subst m r'')
            with Cons A(2) have "m = []" by simp
            moreover from A(1) Cons Subst have "p # ps = [p] @ Subst m r'' # (A' @ map Copy r' @ C)"
              by simp
            from H [OF this] have "m \<noteq> []" by simp
            ultimately show ?thesis by simp
          qed
        qed
        with A(1) Copy y Cons have "p # ps = [] @ map Copy r @ C" by simp
        moreover have "src [] = l" using l by simp
        ultimately show ?thesis by blast
      qed
    next
      case (Cons y l')
      with Cons.prems(2) Copy have x: "x = y" and s: "src ps = l' @ r @ t" by simp_all
      have h: "\<forall>ps1 m r'' ps2. ps = ps1 @ Subst m r'' # ps2 \<longrightarrow>
          m \<noteq> [] \<and> (length (src ps1 @ m) \<le> length l' \<or> length (l' @ r) \<le> length (src ps1))"
      proof (intro allI impI)
        fix ps1 m r'' ps2 assume "ps = ps1 @ Subst m r'' # ps2"
        then have "p # ps = (p # ps1) @ Subst m r'' # ps2" by simp
        from H [OF this] Cons Copy
        show "m \<noteq> [] \<and> (length (src ps1 @ m) \<le> length l' \<or> length (l' @ r) \<le> length (src ps1))"
          by auto
      qed
      from Cons.IH [OF h s] obtain A C where "ps = A @ map Copy r @ C" "src A = l'"
        by blast
      with Copy x Cons have "p # ps = (p # A) @ map Copy r @ C" "src (p # A) = l" by simp_all
      then show ?thesis by blast
    qed
  next
    case (Subst m r'')
    then have "p # ps = [] @ Subst m r'' # ps" by simp
    from H [OF this] have ne: "m \<noteq> []"
      and d: "length m \<le> length l \<or> length (l @ r) \<le> 0" by simp_all
    show ?thesis
    proof (cases "length m \<le> length l")
      case True
      from Cons.prems(2) Subst have eq: "m @ src ps = l @ r @ t" by simp
      from split_le [OF eq True] obtain l'' where l'': "l = m @ l''" and s: "src ps = l'' @ r @ t"
        by blast
      have h: "\<forall>ps1 m' r3 ps2. ps = ps1 @ Subst m' r3 # ps2 \<longrightarrow>
          m' \<noteq> [] \<and> (length (src ps1 @ m') \<le> length l'' \<or> length (l'' @ r) \<le> length (src ps1))"
      proof (intro allI impI)
        fix ps1 m' r3 ps2 assume "ps = ps1 @ Subst m' r3 # ps2"
        then have "p # ps = (p # ps1) @ Subst m' r3 # ps2" by simp
        from H [OF this] l'' Subst
        show "m' \<noteq> [] \<and> (length (src ps1 @ m') \<le> length l''
            \<or> length (l'' @ r) \<le> length (src ps1))" by auto
      qed
      from Cons.IH [OF h s] obtain A C where "ps = A @ map Copy r @ C" "src A = l''"
        by blast
      with Subst l'' have "p # ps = (p # A) @ map Copy r @ C" "src (p # A) = l" by simp_all
      then show ?thesis by blast
    next
      case False
      with d have "l = []" "r = []" by simp_all
      then have "p # ps = [] @ map Copy r @ (p # ps)" "src [] = l" by simp_all
      then show ?thesis by blast
    qed
  qed
qed

lemma occurrence_kept:
  assumes sub: "\<And>m r'. Subst m r' \<in> set ps \<Longrightarrow> m \<in> L \<and> m \<noteq> []"
    and ap: "apart L r" and occ: "sublist r (src ps)"
  shows "sublist r (dst ps)"
proof -
  from occ obtain l t where eq: "src ps = l @ r @ t" by (auto simp: sublist_split)
  have "\<forall>ps1 m r' ps2. ps = ps1 @ Subst m r' # ps2 \<longrightarrow>
      m \<noteq> [] \<and> (length (src ps1 @ m) \<le> length l \<or> length (l @ r) \<le> length (src ps1))"
  proof (intro allI impI)
    fix ps1 m r' ps2 assume ps: "ps = ps1 @ Subst m r' # ps2"
    then have "Subst m r' \<in> set ps" by simp
    from sub [OF this] have m: "m \<in> L" "m \<noteq> []" by simp_all
    from ps eq have "src ps1 @ m @ src ps2 = l @ r @ t" by simp
    with ap m(1) have "length (src ps1 @ m) \<le> length l \<or> length (l @ r) \<le> length (src ps1)"
      unfolding apart_def by blast
    with m(2) show "m \<noteq> [] \<and> (length (src ps1 @ m) \<le> length l
        \<or> length (l @ r) \<le> length (src ps1))" by simp
  qed
  from occurrence_survives [OF this eq] obtain A C where "ps = A @ map Copy r @ C" by blast
  then have "dst ps = dst A @ r @ dst C" by simp
  then show ?thesis unfolding sublist_split by blast
qed

lemma sub_toks_keeps:
  assumes c: "\<exists>t\<in>set p. consumes t" and ap: "apart (lang p) r" and occ: "sublist r s"
  shows "sublist r (sub_toks p t s)"
  unfolding sub_toks_def
proof (rule occurrence_kept [OF _ ap])
  show "sublist r (src (scan (rx_rule p t) s))" using occ sub_toks_src(1) [OF c] by simp
next
  fix m r' assume "Subst m r' \<in> set (scan (rx_rule p t) s)"
  from scanned_pieces [OF sub_toks_src(2) [OF c] this]
  obtain s' where s': "rx_rule p t s' = Some (m, r')" by blast
  then obtain ws where "rx_match p s' = Some ws" "m = concat ws"
    by (auto simp: rx_rule_def split: option.splits)
  with rx_match_sound [of p s' ws] have "m \<in> lang p" by (auto simp: lang_def)
  moreover from properD [OF proper_rx_rule [OF c] s'] have "m \<noteq> []" by simp
  ultimately show "m \<in> lang p \<and> m \<noteq> []" by simp
qed

lemma str_replace_keeps:
  assumes ne: "old \<noteq> []" and ap: "apart {old} r" and occ: "sublist r s"
  shows "sublist r (str_replace old new s)"
  unfolding str_replace_def
proof (rule occurrence_kept [OF _ ap])
  show "sublist r (src (scan (lit_rule old new) s))" using occ str_replace_pieces(1) [OF ne] by simp
next
  fix m r' assume "Subst m r' \<in> set (scan (lit_rule old new) s)"
  from str_replace_pieces(3) [OF ne this] ne show "m \<in> {old} \<and> m \<noteq> []" by simp
qed

section \<open>Bytes, line ends and the characters of a result\<close>

lemma utf8_decode_sound:
  "utf8_decode bs = Some t \<Longrightarrow> list_all scalar t \<and> concat (map utf8_char t) = bs"
proof (induction bs arbitrary: t rule: utf8_decode.induct)
  case 1
  then show ?case by simp
next
  case (2 b bs)
  let ?u = "b # take (utf8_width b - 1) bs"
  from "2.prems" have c: "0 < utf8_width b" "scalar (utf8_point ?u)"
    "utf8_char (utf8_point ?u) = ?u"
    by (simp_all split: if_splits)
  with "2.prems" obtain t' where t': "utf8_decode (drop (utf8_width b - 1) bs) = Some t'"
    and t: "t = utf8_point ?u # t'"
    by auto
  from "2.IH" [OF _ t'] c have ih: "list_all scalar t'"
    "concat (map utf8_char t') = drop (utf8_width b - 1) bs" by simp_all
  have "concat (map utf8_char t) = ?u @ drop (utf8_width b - 1) bs"
    using t c(3) ih(2) by simp
  then have "concat (map utf8_char t) = b # bs" by simp
  with t c(2) ih(1) show ?case by simp
qed

lemma utf8_round_trip: "utf8_decode bs = Some t \<Longrightarrow> utf8_encode t = Some bs"
  using utf8_decode_sound [of bs t] by (simp add: utf8_encode_def)

lemma utf8_encode_scalar: "list_all scalar s \<Longrightarrow> \<exists>bs. utf8_encode s = Some bs"
  by (simp add: utf8_encode_def)

lemma utf8_decode_ascii: "list_all (\<lambda>c. c < 128) s \<Longrightarrow> utf8_decode s = Some s"
  by (induction s) (simp_all add: utf8_width_def scalar_def utf8_char_def)

lemma utf8_encode_ascii: "list_all (\<lambda>c. c < 128) s \<Longrightarrow> utf8_encode s = Some s"
  using utf8_round_trip [OF utf8_decode_ascii] .

lemma universal_newlines_id: "13 \<notin> set s \<Longrightarrow> universal_newlines s = s"
  by (induction s rule: universal_newlines.induct) simp_all

lemma universal_newlines_scalar: "list_all scalar s \<Longrightarrow> list_all scalar (universal_newlines s)"
  by (induction s rule: universal_newlines.induct) (simp_all add: scalar_def)

lemma write_newlines_LF: "write_newlines LF s = s"
  by (induction s) (simp_all add: write_newlines_def)

lemma write_newlines_scalar: "list_all scalar s \<Longrightarrow> list_all scalar (write_newlines e s)"
  by (induction s) (cases e; simp add: write_newlines_def scalar_def)+

lemma esc_scalar: "list_all scalar (esc s)"
proof -
  have a: "scalar (of_char c)" for c
  proof -
    have "(of_char c :: nat) < 256" by (rule nat_of_char_less_256)
    then have "(of_char c :: nat) < 55296" by linarith
    then show ?thesis unfolding scalar_def by (rule disjI1)
  qed
  have b: "scalar 92" by (simp add: scalar_def)
  show ?thesis by (induction s) (simp_all add: esc_def a b)
qed

lemma set_render: "set (render t gs) \<subseteq> {c. TChr c \<in> set t} \<union> (\<Union>g\<in>set gs. set g)"
proof (induction t gs rule: render.induct)
  case (1 gs)
  then show ?case by simp
next
  case (2 c "is" gs)
  then show ?case by auto
next
  case (3 k "is" gs)
  then show ?case by (auto dest: nth_mem)
qed

lemma set_groups:
  "(\<Union>g\<in>set (groups p ws cur). set g)
     \<subseteq> (\<Union>w\<in>set ws. set w) \<union> (case cur of None \<Rightarrow> {} | Some g \<Rightarrow> set g)"
  by (induction p ws cur rule: groups.induct) (auto split: option.splits)

lemma piece_chars:
  "Copy x \<in> set ps \<Longrightarrow> x \<in> set (src ps)" "Subst m r \<in> set ps \<Longrightarrow> set m \<subseteq> set (src ps)"
  by (induction ps) auto

lemma dst_chars:
  assumes "\<And>m r. Subst m r \<in> set ps \<Longrightarrow> set r \<subseteq> set m \<union> C"
  shows "set (dst ps) \<subseteq> set (src ps) \<union> C"
  using assms
proof (induction ps)
  case Nil
  then show ?case by simp
next
  case (Cons p ps)
  then have ih: "set (dst ps) \<subseteq> set (src ps) \<union> C" by simp
  show ?case
  proof (cases p)
    case (Copy x)
    with ih show ?thesis by auto
  next
    case (Subst m r)
    with Cons.prems [of m r] have "set r \<subseteq> set m \<union> C" by simp
    with ih Subst show ?thesis by auto
  qed
qed

lemma sub_toks_chars:
  assumes c: "\<exists>t\<in>set p. consumes t"
  shows "set (sub_toks p t s) \<subseteq> set s \<union> {c. TChr c \<in> set t}"
proof -
  let ?ps = "scan (rx_rule p t) s"
  have "set r \<subseteq> set m \<union> {c. TChr c \<in> set t}" if "Subst m r \<in> set ?ps" for m r
  proof -
    from scanned_pieces [OF sub_toks_src(2) [OF c] that]
    obtain s' where "rx_rule p t s' = Some (m, r)" by blast
    then obtain ws where m: "m = concat ws" and r: "r = render t (groups p ws None)"
      by (auto simp: rx_rule_def split: option.splits)
    from set_groups [of p ws None] have "(\<Union>g\<in>set (groups p ws None). set g) \<subseteq> set m"
      using m by auto
    with set_render [of t "groups p ws None"] r show ?thesis by blast
  qed
  from dst_chars [of ?ps, OF this] sub_toks_src(1) [OF c, of t s]
  show ?thesis by (simp add: sub_toks_def)
qed

lemma str_replace_chars:
  assumes "old \<noteq> []"
  shows "set (str_replace old new s) \<subseteq> set s \<union> set new"
proof -
  let ?ps = "scan (lit_rule old new) s"
  note pr = proper_lit_rule [OF assms, of new]
  have "set r \<subseteq> set m \<union> set new" if "Subst m r \<in> set ?ps" for m r
  proof -
    from scanned_pieces [OF scan_scanned [OF pr] that]
    obtain s' where "lit_rule old new s' = Some (m, r)" by blast
    then show ?thesis by (auto simp: lit_rule_def split: if_splits)
  qed
  from dst_chars [of ?ps, OF this] scan_src [OF pr, of s]
  show ?thesis by (simp add: str_replace_def)
qed

lemma sub_toks_scalar:
  assumes "\<exists>t\<in>set p. consumes t" and "list_all scalar s" and "\<forall>c. TChr c \<in> set t \<longrightarrow> scalar c"
  shows "list_all scalar (sub_toks p t s)"
  using sub_toks_chars [OF assms(1), of t s] assms(2,3) by (auto simp: list_all_iff)

lemma str_replace_scalar:
  assumes "old \<noteq> []" and "list_all scalar s" and "list_all scalar new"
  shows "list_all scalar (str_replace old new s)"
  using str_replace_chars [OF assms(1), of new s] assms(2,3) by (auto simp: list_all_iff)

lemma chars_scalar: "\<forall>c. TChr c \<in> set (map TChr (esc s)) \<longrightarrow> scalar c"
  using esc_scalar [of s] by (auto simp: list_all_iff)

lemma header_tpl_scalar: "\<forall>c. TChr c \<in> set header_tpl \<longrightarrow> scalar c"
  using esc_scalar by (auto simp: header_tpl_def header_ins_def list_all_iff)

lemma outs_scalar:
  "\<forall>c. TChr c \<in> set (map TChr newline_run_out) \<longrightarrow> scalar c"
  "\<forall>c. TChr c \<in> set (map TChr body_run_out) \<longrightarrow> scalar c"
  "\<forall>c. TChr c \<in> set (map TChr mbox_block_out) \<longrightarrow> scalar c"
  "\<forall>c. TChr c \<in> set (map TChr clone_run_out) \<longrightarrow> scalar c"
  "\<forall>c. TChr c \<in> set (map TChr msg_block_out) \<longrightarrow> scalar c"
  "\<forall>c. TChr c \<in> set (map TChr note_title_out) \<longrightarrow> scalar c"
  "\<forall>c. TChr c \<in> set (map TChr note_run_out) \<longrightarrow> scalar c"
  "\<forall>c. TChr c \<in> set (map TChr vcf_block_out) \<longrightarrow> scalar c"
  "\<forall>c. TChr c \<in> set (map TChr filter_out) \<longrightarrow> scalar c"
  unfolding newline_run_out_def body_run_out_def mbox_block_out_def clone_run_out_def
    msg_block_out_def note_title_out_def note_run_out_def vcf_block_out_def filter_out_def
  by (rule chars_scalar)+

lemma news_scalar: "list_all scalar addr_new" "list_all scalar warn_import_new"
  unfolding addr_new_def warn_import_new_def by (rule esc_scalar)+

lemma header_consuming: "\<exists>t\<in>set header_toks. consumes t" "\<exists>t\<in>set field_toks. consumes t"
  by (simp_all add: header_grouped field_grouped consumes_grouped)

lemma mbox_steps_scalar: "list_all scalar s \<Longrightarrow> list_all scalar (mbox_steps s)"
  unfolding mbox_steps_def
  by (intro str_replace_scalar sub_toks_scalar literals_nonempty news_scalar outs_scalar
      header_tpl_scalar consuming header_consuming)

lemma msg_steps_scalar: "list_all scalar s \<Longrightarrow> list_all scalar (msg_steps s)"
  unfolding msg_steps_def
  by (intro str_replace_scalar sub_toks_scalar literals_nonempty news_scalar outs_scalar
      header_tpl_scalar consuming header_consuming)

lemma vcf_steps_scalar: "list_all scalar s \<Longrightarrow> list_all scalar (vcf_steps s)"
  unfolding vcf_steps_def
  by (intro str_replace_scalar sub_toks_scalar literals_nonempty news_scalar outs_scalar
      header_tpl_scalar consuming header_consuming)

text \<open>What a routine does, by the outcome of reading and by the fault.\<close>

lemma fix_file_read_fails:
  "read_text fault path w = Inl err \<Longrightarrow> fix_file path tr m e fault w = (Some err, w)"
  by (simp add: fix_file_def)

lemma read_text_scalar: "read_text fault path w = Inr t \<Longrightarrow> list_all scalar t"
  by (auto simp: read_text_def universal_newlines_scalar dest: utf8_decode_sound
      split: if_splits option.splits)

lemma fix_file_writes:
  assumes "read_text fault path w = Inr t" and "tr t = Inr t'"
    and "utf8_encode (write_newlines e t') = Some bs"
  shows "fix_file path tr m e fault w =
     (case fault of
        Some Open_for_write_fails \<Rightarrow> (Some Os_error, w)
      | Some (Write_fails k) \<Rightarrow> (Some Os_error, w\<lparr>files := (files w)(path \<mapsto> take k bs)\<rparr>)
      | _ \<Rightarrow> (None, w\<lparr>files := (files w)(path \<mapsto> bs), printed := printed w @ [m]\<rparr>))"
  using assms
  by (auto simp: fix_file_def write_text_def print_line_def read_text_def
      split: option.splits fault.splits if_splits)

section \<open>Texts without a match\<close>

lemma sub_toks_id: "\<not> rx_search p s \<Longrightarrow> sub_toks p t s = s"
  by (simp add: sub_toks_def scan_not_found found_rx_rule)

lemma str_replace_id: "\<not> sublist old s \<Longrightarrow> str_replace old new s = s"
  by (simp add: str_replace_def scan_not_found found_lit_rule)

lemma re_search_compiled: "re_compile pat = Inr p \<Longrightarrow> re_search pat s = Inr b \<longleftrightarrow> rx_search p s = b"
  by (simp add: re_search_def)

lemmas searches =
  re_search_compiled [OF header_compiled] re_search_compiled [OF newline_run_compiled]
  re_search_compiled [OF body_run_compiled] re_search_compiled [OF block_compiled]
  re_search_compiled [OF clone_run_compiled] re_search_compiled [OF field_compiled]
  re_search_compiled [OF note_title_compiled] re_search_compiled [OF note_run_compiled]
  re_search_compiled [OF filter_compiled]

lemma c2_searches:
  "\<not> rx_search header_toks c2_input" "\<not> rx_search newline_run_toks c2_input"
  "\<not> rx_search body_run_toks c2_input" "\<not> rx_search block_toks c2_input"
     apply (simp add: c2_input_def header_toks_def header_group_def ev)
    apply (simp add: c2_input_def newline_run_toks_def ev)
  apply (simp add: c2_input_def body_run_toks_def ev)
  apply (simp add: c2_input_def block_toks_def ev)
  done

lemma c2_no_addr: "\<not> sublist addr_ref_old c2_input" "\<not> sublist addr_clone_old c2_input"
proof -
  have "\<not> found (lit_rule addr_ref_old addr_new) c2_input"
    by (simp add: c2_input_def addr_ref_old_def lit_rule_def ev)
  then show "\<not> sublist addr_ref_old c2_input" by (simp add: found_lit_rule)
  have "\<not> found (lit_rule addr_clone_old addr_new) c2_input"
    by (simp add: c2_input_def addr_clone_old_def lit_rule_def ev)
  then show "\<not> sublist addr_clone_old c2_input" by (simp add: found_lit_rule)
qed









section \<open>The scenario of the two-field record\<close>

lemma c2_body_call_sub: "sub_toks body_run_toks (map TChr body_run_out) c2_body_call = body_run_out"
proof -
  have "scan (rx_rule body_run_toks (map TChr body_run_out)) c2_body_call
      = [Subst c2_body_call body_run_out]"
    by (simp add: c2_body_call_def body_run_toks_def rx_rule_def ev render_chars scan.simps)
  then show ?thesis by (simp add: sub_toks_def)
qed

lemma c2_differs: "c2_input \<noteq> c2_claimed"
  by (simp add: c2_input_def c2_claimed_def ev)

lemma c2_unchanged:
  "re_sub newline_run_pattern newline_run_repl c2_input = Inr c2_input"
  "re_sub body_run_pattern body_run_repl c2_input = Inr c2_input"
  "fix_mbox_text c2_input = Inr c2_input"
  by (simp_all add: newline_run_sub body_run_sub fix_mbox_text_eq sub_toks_id str_replace_id
      c2_searches c2_no_addr)

lemma inst_runs: "inst p vs \<longleftrightarrow> (\<exists>ws. runs_ok p ws \<and> vs = fill p ws)"
proof
  assume "inst p vs"
  then show "\<exists>ws. runs_ok p ws \<and> vs = fill p ws"
  proof (induction p arbitrary: vs)
    case Nil
    then have "runs_ok [] [] \<and> vs = fill [] []" by (simp add: inst_def)
    then show ?case by blast
  next
    case (Cons t p)
    from Cons.prems obtain v vs' where vs: "vs = v # vs'" and ok: "piece_ok t v" and i: "inst p vs'"
      by (auto simp: inst_Cons)
    from Cons.IH [OF i] obtain ws where ws: "runs_ok p ws" "vs' = fill p ws" by blast
    show ?case
    proof (cases t)
      case (Lit c)
      with vs ok ws have "runs_ok (t # p) ws \<and> vs = fill (t # p) ws" by simp
      then show ?thesis by blast
    next
      case Spaces
      with vs ok ws have "runs_ok (t # p) (v # ws) \<and> vs = fill (t # p) (v # ws)"
        by (simp add: runs_ok_Spaces)
      then show ?thesis by blast
    next
      case Open
      with vs ok ws have "runs_ok (t # p) ws \<and> vs = fill (t # p) ws" by simp
      then show ?thesis by blast
    next
      case Close
      with vs ok ws have "runs_ok (t # p) ws \<and> vs = fill (t # p) ws" by simp
      then show ?thesis by blast
    qed
  qed
next
  assume "\<exists>ws. runs_ok p ws \<and> vs = fill p ws"
  then show "inst p vs" using inst_fill by blast
qed

lemma rx_search_fill:
  "rx_search p s \<longleftrightarrow> (\<exists>ws. runs_ok p ws \<and> sublist (concat (fill p ws)) s)"
proof -
  have "rx_search p s \<longleftrightarrow> occurs (lang p) s"
    using found_occurs [of "rx_rule p []" "lang p" s, OF rx_rule_not_None] found_rx_rule [of p "[]" s]
    by simp
  also have "\<dots> \<longleftrightarrow> (\<exists>ws. runs_ok p ws \<and> sublist (concat (fill p ws)) s)"
    by (auto simp: occurs_def lang_def inst_runs)
  finally show ?thesis .
qed

lemma fill_lits: "fill (lits a @ p) ws = map (\<lambda>c. [c]) (esc a) @ fill p ws"
  by (induction a) (simp_all add: lits_def esc_def)

lemma concat_singletons: "concat (map (\<lambda>c. [c]) xs) = xs"
  by (induction xs) simp_all

lemma runs_ok_lits: "runs_ok (lits a @ p) ws \<longleftrightarrow> runs_ok p ws"
  by (simp add: runs_ok_def filter_Spaces_lits)

lemma three_runs:
  "runs_ok (lits a @ [Spaces] @ lits b @ [Spaces] @ lits c @ [Spaces] @ lits d) ws
     \<longleftrightarrow> (\<exists>x y z. ws = [x, y, z] \<and> white x \<and> white y \<and> white z)"
  "concat (fill (lits a @ [Spaces] @ lits b @ [Spaces] @ lits c @ [Spaces] @ lits d) [x, y, z])
     = esc a @ x @ esc b @ y @ esc c @ z @ esc d"
proof -
  have "runs_ok (lits d) ws' \<longleftrightarrow> ws' = []" for ws'
    using runs_ok_lits [of d "[]" ws'] by simp
  then show "runs_ok (lits a @ [Spaces] @ lits b @ [Spaces] @ lits c @ [Spaces] @ lits d) ws
     \<longleftrightarrow> (\<exists>x y z. ws = [x, y, z] \<and> white x \<and> white y \<and> white z)"
    by (auto simp: runs_ok_lits runs_ok_Spaces white_def)
  have "fill (lits d) [] = map (\<lambda>c. [c]) (esc d)"
    using fill_lits [of d "[]" "[]"] by simp
  then show "concat (fill (lits a @ [Spaces] @ lits b @ [Spaces] @ lits c @ [Spaces] @ lits d) [x, y, z])
     = esc a @ x @ esc b @ y @ esc c @ z @ esc d"
    by (simp add: fill_lits concat_singletons)
qed

lemma body_run_search:
  "rx_search body_run_toks s \<longleftrightarrow>
     (\<exists>x y z. white x \<and> white y \<and> white z
        \<and> sublist (esc ''text_runs.push(TextRun {'' @ x @ esc ''text: body_text,'' @ y
             @ esc ''style: Default::default(),'' @ z @ esc ''});'') s)"
  unfolding rx_search_fill body_run_toks_def three_runs(1)
  using three_runs(2) by (metis (no_types, lifting))

lemma newline_run_search:
  \<open>rx_search newline_run_toks s \<longleftrightarrow>
     (\<exists>x y z. white x \<and> white y \<and> white z
        \<and> sublist (esc ''text_runs.push(TextRun {'' @ x @ esc ''text: "~n".to_string(),'' @ y
             @ esc ''style: Default::default(),'' @ z @ esc ''});'') s)\<close>
  unfolding rx_search_fill newline_run_toks_def three_runs(1)
  using three_runs(2) by (metis (no_types, lifting))

text \<open>
  Claim C2, as amended. The two rules of \<^verbatim>\<open>fix_mbox\<close> for a two-field \<^verbatim>\<open>TextRun\<close> find a
  match in a text exactly when the text holds the call
  \<^verbatim>\<open>text_runs.push(TextRun { text: "\n".to_string(), style: Default::default(), });\<close>, or the
  same call with \<^verbatim>\<open>text: body_text,\<close>, written with a non-empty run of white space at each
  of the three places where the call has a blank here. In the text of the scenario,
  \<open>c2_input\<close>, none of the four patterns of \<^verbatim>\<open>fix_mbox\<close> has a match and neither of its two
  literals occurs; the two rules and the whole transformation of \<^verbatim>\<open>fix_mbox\<close> return it
  unchanged, which is not the text the scenario expects. On the call \<open>c2_body_call\<close> the rule
  for \<^verbatim>\<open>body_text\<close> gives the replacement text \<open>body_run_out\<close> of the rule: the call with the
  two fields \<^verbatim>\<open>bounds: None\<close> and \<^verbatim>\<open>char_positions: None\<close> behind the style field.
\<close>

theorem TextRun_rule_amended:
  \<open>re_search newline_run_pattern s
     = Inr (\<exists>x y z. white x \<and> white y \<and> white z
         \<and> sublist (esc ''text_runs.push(TextRun {'' @ x @ esc ''text: "~n".to_string(),'' @ y
              @ esc ''style: Default::default(),'' @ z @ esc ''});'') s)
   \<and> re_search body_run_pattern s
     = Inr (\<exists>x y z. white x \<and> white y \<and> white z
         \<and> sublist (esc ''text_runs.push(TextRun {'' @ x @ esc ''text: body_text,'' @ y
              @ esc ''style: Default::default(),'' @ z @ esc ''});'') s)
   \<and> re_search header_pattern c2_input = Inr False
   \<and> re_search newline_run_pattern c2_input = Inr False
   \<and> re_search body_run_pattern c2_input = Inr False
   \<and> re_search block_pattern c2_input = Inr False
   \<and> \<not> sublist addr_ref_old c2_input \<and> \<not> sublist addr_clone_old c2_input
   \<and> re_sub newline_run_pattern newline_run_repl c2_input = Inr c2_input
   \<and> re_sub body_run_pattern body_run_repl c2_input = Inr c2_input
   \<and> fix_mbox_text c2_input = Inr c2_input
   \<and> c2_input \<noteq> c2_claimed
   \<and> re_sub body_run_pattern body_run_repl c2_body_call = Inr body_run_out\<close>
proof -
  have 1: \<open>re_search newline_run_pattern s
     = Inr (\<exists>x y z. white x \<and> white y \<and> white z
         \<and> sublist (esc ''text_runs.push(TextRun {'' @ x @ esc ''text: "~n".to_string(),'' @ y
              @ esc ''style: Default::default(),'' @ z @ esc ''});'') s)\<close>
    by (simp add: re_search_def newline_run_compiled newline_run_search)
  have 2: "re_search body_run_pattern s
     = Inr (\<exists>x y z. white x \<and> white y \<and> white z
         \<and> sublist (esc ''text_runs.push(TextRun {'' @ x @ esc ''text: body_text,'' @ y
              @ esc ''style: Default::default(),'' @ z @ esc ''});'') s)"
    by (simp add: re_search_def body_run_compiled body_run_search)
  have 3: "re_search header_pattern c2_input = Inr False"
    "re_search newline_run_pattern c2_input = Inr False"
    "re_search body_run_pattern c2_input = Inr False"
    "re_search block_pattern c2_input = Inr False"
    using c2_searches by (simp_all add: searches)
  have 4: "re_sub body_run_pattern body_run_repl c2_body_call = Inr body_run_out"
    by (simp add: body_run_sub c2_body_call_sub)
  from 1 2 3 c2_no_addr c2_unchanged c2_differs 4 show ?thesis by blast
qed

text \<open>
  The claim as the specification states it fails: no rule of \<^verbatim>\<open>fix_mbox\<close> turns the text of
  the scenario into the text with the two fields added.
\<close>

theorem TextRun_rule_counterexample:
  "re_sub newline_run_pattern newline_run_repl c2_input \<noteq> Inr c2_claimed
   \<and> re_sub body_run_pattern body_run_repl c2_input \<noteq> Inr c2_claimed
   \<and> fix_mbox_text c2_input \<noteq> Inr c2_claimed"
  using c2_differs by (simp add: c2_unchanged)

section \<open>The literal edit of the address expression\<close>

lemma occurrence_is_replaced:
  assumes sc: "scanned (lit_rule old new) ps"
    and free: "no_start_in (map Lit old) (tl old)"
    and ne: "old \<noteq> []"
    and i: "i \<le> length (src ps)" and occ: "prefix old (drop i (src ps))"
  shows "\<exists>ps1 ps2. ps = ps1 @ Subst old new # ps2 \<and> length (src ps1) = i"
  using sc i occ
proof (induction ps arbitrary: i)
  case Nil
  with ne show ?case by simp
next
  case (Cons p ps)
  show ?case
  proof (cases p)
    case (Copy x)
    with Cons.prems(1) have none: "lit_rule old new (x # src ps) = None" and sc': "scanned (lit_rule old new) ps"
      by simp_all
    show ?thesis
    proof (cases i)
      case 0
      with Cons.prems(3) Copy have "prefix old (x # src ps)" by simp
      with none show ?thesis by (simp add: lit_rule_def)
    next
      case (Suc j)
      with Cons.prems(2,3) Copy have "j \<le> length (src ps)" "prefix old (drop j (src ps))" by simp_all
      from Cons.IH [OF sc' this] obtain ps1 ps2
        where "ps = ps1 @ Subst old new # ps2" "length (src ps1) = j" by blast
      then have "p # ps = (p # ps1) @ Subst old new # ps2" "length (src (p # ps1)) = i"
        using Copy Suc by simp_all
      then show ?thesis by blast
    qed
  next
    case (Subst m r)
    with Cons.prems(1) have "lit_rule old new (m @ src ps) = Some (m, r)"
      and sc': "scanned (lit_rule old new) ps" by simp_all
    then have m: "m = old" "r = new" by (auto simp: lit_rule_def split: if_splits)
    consider "i = 0" | "0 < i" "i < length old" | "length old \<le> i" by linarith
    then show ?thesis
    proof cases
      case 1
      have "p # ps = [] @ Subst old new # ps" "length (src ([]::piece list)) = i"
        using Subst m 1 by simp_all
      then show ?thesis by blast
    next
      case 2
      let ?y = "drop i old"
      from 2 have yne: "?y \<noteq> []" by simp
      from Cons.prems(3) Subst m 2 have "prefix old (?y @ src ps)" by simp
      then obtain b where "old @ b = ?y @ src ps" by (auto simp: prefix_def)
      then have "comparable old ?y" by (rule comparable_common)
      have io: "inst (map Lit old) (map (\<lambda>c. [c]) old)" by (simp add: inst_map_Lit)
      have co: "concat (map (\<lambda>c. [c]) old) = old" by (induction old) simp_all
      have cy: "comparable old ?y" by fact
      have cn: "can (map Lit old) ?y"
        by (rule can_sound [OF io]) (simp add: co cy)
      from 2 obtain j where j: "i = Suc j" by (cases i) auto
      then have "?y = drop j (tl old)" by (simp add: drop_Suc)
      then have tl: "tl old = take j (tl old) @ ?y" by simp
      from no_start_in_drop [OF free tl yne] cn show ?thesis by simp
    next
      case 3
      with Cons.prems(2,3) Subst m have "i - length old \<le> length (src ps)"
        "prefix old (drop (i - length old) (src ps))" by simp_all
      from Cons.IH [OF sc' this] obtain ps1 ps2
        where "ps = ps1 @ Subst old new # ps2" "length (src ps1) = i - length old" by blast
      then have "p # ps = (p # ps1) @ Subst old new # ps2" "length (src (p # ps1)) = i"
        using Subst m 3 by simp_all
      then show ?thesis by blast
    qed
  qed
qed

lemma addr_clone_unbordered: "no_start_in (map Lit addr_clone_old) (tl addr_clone_old)"
  by (simp add: addr_clone_old_def ev crit)

lemma addr_clone_nonempty: "addr_clone_old \<noteq> []"
  by (simp add: addr_clone_old_def esc_def)

lemma addr_line_replace: "str_replace addr_clone_old addr_new addr_line = addr_line_fixed"
  by (simp add: str_replace_def addr_line_def addr_line_fixed_def addr_clone_old_def
      addr_new_def lit_rule_def ev scan.simps)

lemma addr_line_count: "str_replace_count addr_clone_old addr_new addr_line = 1"
  by (simp add: str_replace_count_def n_subst_def addr_line_def addr_clone_old_def
      addr_new_def lit_rule_def ev scan.simps)

lemma addr_upper_unchanged: "str_replace addr_clone_old addr_new addr_upper = addr_upper"
proof -
  have "\<not> found (lit_rule addr_clone_old addr_new) addr_upper"
    by (simp add: addr_upper_def addr_clone_old_def lit_rule_def ev)
  then show ?thesis by (simp add: str_replace_def scan_not_found)
qed

lemma addr_line_occurrence: "prefix addr_clone_old (drop 8 addr_line)"
  by (simp add: addr_line_def addr_clone_old_def ev)

text \<open>
  Claim C3. \<^verbatim>\<open>content.replace\<close> with the expression
  \<^verbatim>\<open>addr.address.clone().unwrap_or_default()\<close> cuts every text into pieces: characters that
  are copied as they are, and stretches equal to the expression, character for character,
  that are replaced by the new expression. Nothing else changes, and every place of the
  text where the expression stands is the start of a replaced stretch.
\<close>

theorem replace_clone_expression:
  "\<exists>ps. src ps = s
     \<and> dst ps = str_replace addr_clone_old addr_new s
     \<and> n_subst ps = str_replace_count addr_clone_old addr_new s
     \<and> (\<forall>p\<in>set ps. (\<exists>x. p = Copy x) \<or> p = Subst addr_clone_old addr_new)
     \<and> (\<forall>i\<le>length s. prefix addr_clone_old (drop i s) \<longrightarrow>
           (\<exists>ps1 ps2. ps = ps1 @ Subst addr_clone_old addr_new # ps2 \<and> length (src ps1) = i))"
proof -
  let ?M = "lit_rule addr_clone_old addr_new"
  let ?ps = "scan ?M s"
  have 1: "src ?ps = s" by (rule str_replace_pieces(1) [OF addr_clone_nonempty])
  have sc: "scanned ?M ?ps" by (rule str_replace_pieces(2) [OF addr_clone_nonempty])
  have 2: "dst ?ps = str_replace addr_clone_old addr_new s" by (simp add: str_replace_def)
  have 3: "n_subst ?ps = str_replace_count addr_clone_old addr_new s"
    by (simp add: str_replace_count_def)
  have 4: "\<forall>p\<in>set ?ps. (\<exists>x. p = Copy x) \<or> p = Subst addr_clone_old addr_new"
  proof
    fix p assume p: "p \<in> set ?ps"
    show "(\<exists>x. p = Copy x) \<or> p = Subst addr_clone_old addr_new"
    proof (cases p)
      case (Copy x)
      then show ?thesis by simp
    next
      case (Subst m r)
      with p have "Subst m r \<in> set ?ps" by simp
      from str_replace_pieces(3) [OF addr_clone_nonempty this] Subst show ?thesis by simp
    qed
  qed
  have 5: "\<forall>i\<le>length s. prefix addr_clone_old (drop i s) \<longrightarrow>
      (\<exists>ps1 ps2. ?ps = ps1 @ Subst addr_clone_old addr_new # ps2 \<and> length (src ps1) = i)"
  proof (intro allI impI)
    fix i assume "i \<le> length s" "prefix addr_clone_old (drop i s)"
    then have "i \<le> length (src ?ps)" "prefix addr_clone_old (drop i (src ?ps))"
      by (simp_all add: 1)
    from occurrence_is_replaced [OF sc addr_clone_unbordered addr_clone_nonempty this]
    show "\<exists>ps1 ps2. ?ps = ps1 @ Subst addr_clone_old addr_new # ps2 \<and> length (src ps1) = i" .
  qed
  from 1 2 3 4 5 show ?thesis by blast
qed

theorem replace_clone_expression_witness:
  "str_replace addr_clone_old addr_new addr_upper = addr_upper
   \<and> prefix addr_clone_old (drop 8 addr_line)
   \<and> (\<exists>ps. src ps = addr_line \<and> dst ps = addr_line_fixed \<and> n_subst ps = 1
        \<and> (\<exists>ps1 ps2. ps = ps1 @ Subst addr_clone_old addr_new # ps2 \<and> length (src ps1) = 8))"
proof -
  from replace_clone_expression [of addr_line] obtain ps where ps: "src ps = addr_line"
    "dst ps = str_replace addr_clone_old addr_new addr_line"
    "n_subst ps = str_replace_count addr_clone_old addr_new addr_line"
    and all: "\<forall>i\<le>length addr_line. prefix addr_clone_old (drop i addr_line) \<longrightarrow>
      (\<exists>ps1 ps2. ps = ps1 @ Subst addr_clone_old addr_new # ps2 \<and> length (src ps1) = i)"
    by blast
  have "8 \<le> length addr_line" by (simp add: addr_line_def esc_def)
  with all addr_line_occurrence
  have "\<exists>ps1 ps2. ps = ps1 @ Subst addr_clone_old addr_new # ps2 \<and> length (src ps1) = 8"
    by blast
  with ps show ?thesis
    using addr_upper_unchanged addr_line_occurrence
    by (auto simp: addr_line_replace addr_line_count)
qed

section \<open>The example texts evaluated\<close>

lemma fix_mbox_text_steps: "fix_mbox_text s = Inr (mbox_steps s)"
  by (simp add: fix_mbox_text_eq mbox_steps_def)

lemma fix_msg_text_steps: "fix_msg_text s = Inr (msg_steps s)"
  by (simp add: fix_msg_text_eq msg_steps_def)

lemma fix_vcf_text_steps: "fix_vcf_text s = Inr (vcf_steps s)"
  by (simp add: fix_vcf_text_eq vcf_steps_def)

lemma addr_line_searches:
  "\<not> rx_search header_toks addr_line" "\<not> rx_search newline_run_toks addr_line"
  "\<not> rx_search body_run_toks addr_line" "\<not> rx_search block_toks addr_line"
     apply (simp add: addr_line_def header_toks_def header_group_def ev)
    apply (simp add: addr_line_def newline_run_toks_def ev)
   apply (simp add: addr_line_def body_run_toks_def ev)
  apply (simp add: addr_line_def block_toks_def ev)
  done

lemma addr_line_fixed: "fix_mbox_text addr_line = Inr addr_line_fixed"
proof -
  have "\<not> found (lit_rule addr_ref_old addr_new) addr_line"
    by (simp add: addr_line_def addr_ref_old_def lit_rule_def ev)
  then have 5: "str_replace addr_ref_old addr_new addr_line = addr_line"
    by (simp add: str_replace_def scan_not_found)
  have 6: "str_replace addr_clone_old addr_new addr_line = addr_line_fixed"
    by (rule addr_line_replace)
  show ?thesis
    by (simp add: fix_mbox_text_eq sub_toks_id addr_line_searches 5 6)
qed

section \<open>Running a routine twice\<close>

text \<open>
  Claim C1. For every text each of the three transformations succeeds, and applied to its
  own result it returns that result: no rule of a routine finds a match in what the routine
  has produced.
\<close>

theorem fix_idempotent:
  "(\<exists>u. fix_mbox_text t = Inr u \<and> fix_mbox_text u = Inr u)
   \<and> (\<exists>u. fix_msg_text t = Inr u \<and> fix_msg_text u = Inr u)
   \<and> (\<exists>u. fix_vcf_text t = Inr u \<and> fix_vcf_text u = Inr u)"
  by (simp add: fix_mbox_text_steps fix_msg_text_steps fix_vcf_text_steps
      mbox_steps_fixed msg_steps_fixed vcf_steps_fixed)

theorem fix_idempotent_witness:
  "fix_mbox_text addr_line = Inr addr_line_fixed
   \<and> fix_mbox_text addr_line_fixed = Inr addr_line_fixed
   \<and> addr_line \<noteq> addr_line_fixed"
proof -
  have "addr_line \<noteq> addr_line_fixed"
    by (simp add: addr_line_def addr_line_fixed_def ev)
  then show ?thesis
    using fix_idempotent [of addr_line] addr_line_fixed by auto
qed

section \<open>The old address expressions\<close>

lemma addr_ref_unbordered: "no_start_in (map Lit addr_ref_old) (tl addr_ref_old)"
  by (simp add: addr_ref_old_def ev crit)

lemma sublist_position: "sublist v s \<longleftrightarrow> (\<exists>i\<le>length s. prefix v (drop i s))"
proof
  assume "sublist v s"
  then obtain a b where "s = a @ v @ b" by (auto simp: sublist_split)
  then have "length a \<le> length s" "prefix v (drop (length a) s)" by simp_all
  then show "\<exists>i\<le>length s. prefix v (drop i s)" by blast
next
  assume "\<exists>i\<le>length s. prefix v (drop i s)"
  then obtain i t where "drop i s = v @ t" by (auto simp: prefix_def)
  then have "s = take i s @ v @ t" by (metis append_take_drop_id)
  then show "sublist v s" unfolding sublist_split by blast
qed

lemma literal_edit:
  assumes ne: "old \<noteq> []" and free: "no_start_in (map Lit old) (tl old)"
  shows "src (scan (lit_rule old new) s) = s"
    and "\<forall>p\<in>set (scan (lit_rule old new) s). (\<exists>x. p = Copy x) \<or> p = Subst old new"
    and "\<forall>i\<le>length s. prefix old (drop i s) \<longrightarrow>
          (\<exists>q1 q2. scan (lit_rule old new) s = q1 @ Subst old new # q2 \<and> length (src q1) = i)"
    and "sublist old s \<Longrightarrow> sublist new (str_replace old new s)"
proof -
  let ?ps = "scan (lit_rule old new) s"
  show 1: "src ?ps = s" by (rule str_replace_pieces(1) [OF ne])
  have sc: "scanned (lit_rule old new) ?ps" by (rule str_replace_pieces(2) [OF ne])
  show "\<forall>p\<in>set ?ps. (\<exists>x. p = Copy x) \<or> p = Subst old new"
  proof
    fix p assume p: "p \<in> set ?ps"
    show "(\<exists>x. p = Copy x) \<or> p = Subst old new"
    proof (cases p)
      case (Copy x)
      then show ?thesis by simp
    next
      case (Subst m r)
      with p have "Subst m r \<in> set ?ps" by simp
      from str_replace_pieces(3) [OF ne this] Subst show ?thesis by simp
    qed
  qed
  show 3: "\<forall>i\<le>length s. prefix old (drop i s) \<longrightarrow>
      (\<exists>q1 q2. ?ps = q1 @ Subst old new # q2 \<and> length (src q1) = i)"
  proof (intro allI impI)
    fix i assume "i \<le> length s" "prefix old (drop i s)"
    then have "i \<le> length (src ?ps)" "prefix old (drop i (src ?ps))" by (simp_all add: 1)
    from occurrence_is_replaced [OF sc free ne this]
    show "\<exists>q1 q2. ?ps = q1 @ Subst old new # q2 \<and> length (src q1) = i" .
  qed
  assume "sublist old s"
  then obtain i where "i \<le> length s" "prefix old (drop i s)" unfolding sublist_position by blast
  with 3 obtain q1 q2 where "?ps = q1 @ Subst old new # q2" by blast
  then have "dst ?ps = dst q1 @ new @ dst q2" by simp
  then show "sublist new (str_replace old new s)"
    unfolding str_replace_def sublist_split by blast
qed

lemma legacy_kept:
  assumes "r = addr_ref_old \<or> r = addr_clone_old" and "sublist r t"
  shows "sublist r (sub_toks block_toks (map TChr mbox_block_out)
           (sub_toks body_run_toks (map TChr body_run_out)
             (sub_toks newline_run_toks (map TChr newline_run_out)
               (sub_toks header_toks header_tpl t))))"
  using assms
  by (auto intro!: sub_toks_keeps consuming header_consuming
      apart_header_addr_ref_old apart_newline_run_addr_ref_old apart_body_run_addr_ref_old
      apart_block_addr_ref_old apart_header_addr_clone_old apart_newline_run_addr_clone_old
      apart_body_run_addr_clone_old apart_block_addr_clone_old)

text \<open>
  Claim C10. For every text \<open>t\<close> the transformation of \<^verbatim>\<open>fix_mbox\<close> succeeds. The four
  \<^verbatim>\<open>re.sub\<close> rules leave every occurrence of the two old address expressions standing.
  The first literal edit then cuts their result \<open>v\<close> into copied characters and stretches
  equal to \<^verbatim>\<open>addr.address.as_ref().unwrap_or(&String::new())\<close> that it replaces by the new
  expression, and every place where that old expression stands is the start of such a
  stretch; the second literal edit does the same with
  \<^verbatim>\<open>addr.address.clone().unwrap_or_default()\<close> on the result of the first. The result \<open>u\<close>
  holds neither old expression, and it holds the new expression whenever \<open>t\<close> held one of
  the old ones.
\<close>

theorem legacy_addresses_normalized:
  "\<exists>t1 t2 t3 v ps1 ps2 u.
     re_sub header_pattern header_repl t = Inr t1
     \<and> re_sub newline_run_pattern newline_run_repl t1 = Inr t2
     \<and> re_sub body_run_pattern body_run_repl t2 = Inr t3
     \<and> re_sub block_pattern mbox_block_repl t3 = Inr v
     \<and> (sublist addr_ref_old t \<longrightarrow> sublist addr_ref_old v)
     \<and> (sublist addr_clone_old t \<longrightarrow> sublist addr_clone_old v)
     \<and> src ps1 = v
     \<and> (\<forall>p\<in>set ps1. (\<exists>x. p = Copy x) \<or> p = Subst addr_ref_old addr_new)
     \<and> (\<forall>i\<le>length v. prefix addr_ref_old (drop i v) \<longrightarrow>
           (\<exists>q1 q2. ps1 = q1 @ Subst addr_ref_old addr_new # q2 \<and> length (src q1) = i))
     \<and> src ps2 = dst ps1
     \<and> (\<forall>p\<in>set ps2. (\<exists>x. p = Copy x) \<or> p = Subst addr_clone_old addr_new)
     \<and> (\<forall>i\<le>length (dst ps1). prefix addr_clone_old (drop i (dst ps1)) \<longrightarrow>
           (\<exists>q1 q2. ps2 = q1 @ Subst addr_clone_old addr_new # q2 \<and> length (src q1) = i))
     \<and> u = dst ps2
     \<and> fix_mbox_text t = Inr u
     \<and> \<not> sublist addr_ref_old u \<and> \<not> sublist addr_clone_old u
     \<and> (sublist addr_ref_old t \<or> sublist addr_clone_old t \<longrightarrow> sublist addr_new u)"
proof -
  let ?t1 = "sub_toks header_toks header_tpl t"
  let ?t2 = "sub_toks newline_run_toks (map TChr newline_run_out) ?t1"
  let ?t3 = "sub_toks body_run_toks (map TChr body_run_out) ?t2"
  let ?v = "sub_toks block_toks (map TChr mbox_block_out) ?t3"
  let ?ps1 = "scan (lit_rule addr_ref_old addr_new) ?v"
  let ?ps2 = "scan (lit_rule addr_clone_old addr_new) (dst ?ps1)"
  note ref = literal_edit [where new = addr_new, OF literals_nonempty(1) addr_ref_unbordered]
  note clone = literal_edit [where new = addr_new, OF literals_nonempty(2) addr_clone_unbordered]
  have d1: "dst ?ps1 = str_replace addr_ref_old addr_new ?v" by (simp add: str_replace_def)
  have d2: "dst ?ps2 = mbox_steps t" by (simp add: mbox_steps_def str_replace_def)
  have chain: "re_sub header_pattern header_repl t = Inr ?t1"
    "re_sub newline_run_pattern newline_run_repl ?t1 = Inr ?t2"
    "re_sub body_run_pattern body_run_repl ?t2 = Inr ?t3"
    "re_sub block_pattern mbox_block_repl ?t3 = Inr ?v"
    by (simp_all add: header_sub newline_run_sub body_run_sub mbox_block_sub)
  have keep: "sublist addr_ref_old t \<longrightarrow> sublist addr_ref_old ?v"
    "sublist addr_clone_old t \<longrightarrow> sublist addr_clone_old ?v"
    using legacy_kept [of addr_ref_old t] legacy_kept [of addr_clone_old t] by simp_all
  have fx: "fix_mbox_text t = Inr (dst ?ps2)" by (simp add: d2 fix_mbox_text_steps)
  have clean: "\<not> sublist addr_ref_old (dst ?ps2)" "\<not> sublist addr_clone_old (dst ?ps2)"
    using mbox_clean [of t] by (simp_all add: d2)
  have new: "sublist addr_new (dst ?ps2)" if "sublist addr_ref_old t \<or> sublist addr_clone_old t"
    using that
  proof
    assume "sublist addr_ref_old t"
    with keep(1) have "sublist addr_ref_old ?v" by simp
    from ref(4) [OF this] have "sublist addr_new (dst ?ps1)" by (simp add: d1)
    from str_replace_keeps [OF literals_nonempty(2) apart_addr_clone_addr_new [unfolded lang_map_Lit] this]
    show ?thesis by (simp add: str_replace_def)
  next
    assume "sublist addr_clone_old t"
    with keep(2) have "sublist addr_clone_old ?v" by simp
    from str_replace_keeps [OF literals_nonempty(1)
        apart_addr_ref_addr_clone_old [unfolded lang_map_Lit] this]
    have "sublist addr_clone_old (dst ?ps1)" by (simp add: d1)
    from clone(4) [OF this] show ?thesis by (simp add: str_replace_def)
  qed
  from chain keep ref(1-3) [of ?v] clone(1-3) [of "dst ?ps1"] fx clean new
  show ?thesis by blast
qed

lemma addr_line_has: "sublist addr_clone_old addr_line" "sublist addr_new addr_line_fixed"
proof -
  show "sublist addr_clone_old addr_line"
    unfolding sublist_def
    by (intro exI [of _ "esc ''let x = ''"] exI [of _ "esc '';''"])
      (simp add: addr_line_def addr_clone_old_def esc_def)
  show "sublist addr_new addr_line_fixed"
    unfolding sublist_def
    by (intro exI [of _ "esc ''let x = ''"] exI [of _ "esc '';''"])
      (simp add: addr_line_fixed_def addr_new_def esc_def)
qed

lemma addr_both_fixed: "fix_mbox_text addr_both = Inr addr_both_fixed"
proof -
  have s: "\<not> rx_search header_toks addr_both" "\<not> rx_search newline_run_toks addr_both"
    "\<not> rx_search body_run_toks addr_both" "\<not> rx_search block_toks addr_both"
       apply (simp add: addr_both_def header_toks_def header_group_def ev)
      apply (simp add: addr_both_def newline_run_toks_def ev)
     apply (simp add: addr_both_def body_run_toks_def ev)
    apply (simp add: addr_both_def block_toks_def ev)
    done
  have "str_replace addr_clone_old addr_new (str_replace addr_ref_old addr_new addr_both)
      = addr_both_fixed"
    by (simp add: str_replace_def addr_both_def addr_both_fixed_def addr_ref_old_def
        addr_clone_old_def addr_new_def lit_rule_def ev scan.simps)
  then show ?thesis by (simp add: fix_mbox_text_eq sub_toks_id s)
qed

lemma addr_both_has: "sublist addr_ref_old addr_both" "sublist addr_clone_old addr_both"
proof -
  show "sublist addr_ref_old addr_both"
    unfolding sublist_def
    by (intro exI [of _ "esc ''f(''"]
        exI [of _ "esc '', addr.address.clone().unwrap_or_default())''"])
      (simp add: addr_both_def addr_ref_old_def esc_def)
  show "sublist addr_clone_old addr_both"
    unfolding sublist_def
    by (intro exI [of _ "esc ''f(addr.address.as_ref().unwrap_or(&String::new()), ''"]
        exI [of _ "esc '')''"])
      (simp add: addr_both_def addr_clone_old_def esc_def)
qed

text \<open>
  The theorem at a line that holds both old expressions and at a line that holds the second.
\<close>

theorem legacy_addresses_normalized_witness:
  "sublist addr_ref_old addr_both \<and> sublist addr_clone_old addr_both
   \<and> fix_mbox_text addr_both = Inr addr_both_fixed
   \<and> \<not> sublist addr_ref_old addr_both_fixed \<and> \<not> sublist addr_clone_old addr_both_fixed
   \<and> sublist addr_new addr_both_fixed
   \<and> sublist addr_clone_old addr_line
   \<and> fix_mbox_text addr_line = Inr addr_line_fixed
   \<and> \<not> sublist addr_ref_old addr_line_fixed \<and> \<not> sublist addr_clone_old addr_line_fixed
   \<and> sublist addr_new addr_line_fixed"
  using legacy_addresses_normalized [of addr_line] legacy_addresses_normalized [of addr_both]
    addr_line_has(1) addr_line_fixed addr_both_has addr_both_fixed
  by auto

section \<open>White space between the fixed parts of a pattern\<close>

















section \<open>The places of the matches\<close>

lemma spans_bounds:
  assumes "proper M" and "scanned M ps" and "(a, b) \<in> set (spans n ps)"
  shows "n \<le> a \<and> a < b \<and> b \<le> n + length (src ps)
       \<and> (\<exists>m r. M (drop (a - n) (src ps)) = Some (m, r) \<and> b = a + length m)"
  using assms(2,3)
proof (induction ps arbitrary: n)
  case Nil
  then show ?case by simp
next
  case (Cons q ps)
  show ?case
  proof (cases q)
    case (Copy x)
    with Cons.prems have sc: "scanned M ps" and el: "(a, b) \<in> set (spans (Suc n) ps)"
      by simp_all
    from Cons.IH [OF sc el] have ih: "Suc n \<le> a" "a < b" "b \<le> Suc n + length (src ps)"
      "\<exists>m r. M (drop (a - Suc n) (src ps)) = Some (m, r) \<and> b = a + length m" by simp_all
    from ih(1) have "a - n = Suc (a - Suc n)" by simp
    then have "drop (a - n) (src (q # ps)) = drop (a - Suc n) (src ps)"
      using Copy by simp
    with ih show ?thesis using Copy by simp
  next
    case (Subst m r)
    with Cons.prems have here: "M (m @ src ps) = Some (m, r)" and sc: "scanned M ps"
      and el: "(a, b) = (n, n + length m) \<or> (a, b) \<in> set (spans (n + length m) ps)"
      by simp_all
    from properD [OF assms(1) here] have ne: "m \<noteq> []" by simp
    from el show ?thesis
    proof
      assume "(a, b) = (n, n + length m)"
      then show ?thesis using here ne Subst by simp
    next
      assume "(a, b) \<in> set (spans (n + length m) ps)"
      from Cons.IH [OF sc this] have ih: "n + length m \<le> a" "a < b"
        "b \<le> n + length m + length (src ps)"
        "\<exists>m' r'. M (drop (a - (n + length m)) (src ps)) = Some (m', r') \<and> b = a + length m'"
        by simp_all
      from ih(1) have "drop (a - n) (m @ src ps) = drop (a - (n + length m)) (src ps)"
        by simp
      with ih show ?thesis using Subst by simp
    qed
  qed
qed

lemma spans_sorted:
  assumes "proper M" and "scanned M ps"
  shows "sorted_wrt (\<lambda>x y. snd x \<le> fst y) (spans n ps)"
  using assms(2)
proof (induction ps arbitrary: n)
  case Nil
  then show ?case by simp
next
  case (Cons q ps)
  show ?case
  proof (cases q)
    case (Copy x)
    with Cons show ?thesis by simp
  next
    case (Subst m r)
    with Cons.prems have sc: "scanned M ps" by simp
    have "n + length m \<le> fst y" if "y \<in> set (spans (n + length m) ps)" for y
      using spans_bounds [OF assms(1) sc, of "fst y" "snd y" "n + length m"] that by simp
    with Cons.IH [OF sc] show ?thesis using Subst by simp
  qed
qed

lemma spans_cover:
  assumes "proper M" and "scanned M ps" and "i \<le> length (src ps)"
    and "M (drop i (src ps)) \<noteq> None"
  shows "\<exists>(a, b)\<in>set (spans n ps). a \<le> n + i \<and> n + i < b"
  using assms(2-4)
proof (induction ps arbitrary: n i)
  case Nil
  then obtain m r where "M [] = Some (m, r)" by auto
  from properD [OF assms(1) this] show ?case by simp
next
  case (Cons q ps)
  show ?case
  proof (cases q)
    case (Copy x)
    with Cons.prems have none: "M (x # src ps) = None" and sc: "scanned M ps" by simp_all
    show ?thesis
    proof (cases i)
      case 0
      with Cons.prems(3) Copy none show ?thesis by simp
    next
      case (Suc j)
      with Cons.prems Copy have "j \<le> length (src ps)" "M (drop j (src ps)) \<noteq> None" by simp_all
      from Cons.IH [OF sc this, of "Suc n"] show ?thesis using Copy Suc by simp
    qed
  next
    case (Subst m r)
    with Cons.prems have sc: "scanned M ps" by simp
    show ?thesis
    proof (cases "i < length m")
      case True
      then show ?thesis using Subst by simp
    next
      case False
      then have le: "length m \<le> i" by simp
      with Cons.prems Subst have "i - length m \<le> length (src ps)"
        "M (drop (i - length m) (src ps)) \<noteq> None" by simp_all
      from Cons.IH [OF sc this, of "n + length m"] le show ?thesis using Subst by auto
    qed
  qed
qed

lemma scan_gap:
  assumes "\<And>i. i < length g \<Longrightarrow> M (drop i g @ rest) = None"
  shows "scan M (g @ rest) = map Copy g @ scan M rest"
  using assms
proof (induction g)
  case Nil
  then show ?case by simp
next
  case (Cons x g)
  from Cons.prems [of 0] have "M (x # g @ rest) = None" by simp
  moreover have "scan M (g @ rest) = map Copy g @ scan M rest"
  proof (rule Cons.IH)
    fix i assume "i < length g"
    with Cons.prems [of "Suc i"] show "M (drop i g @ rest) = None" by simp
  qed
  ultimately show ?case by (simp add: scan_Cons_None)
qed

lemma starts_plain_no_match:
  "starts_plain p \<Longrightarrow> is_space x \<Longrightarrow> rx_match p (x # xs) = None"
proof (induction p)
  case Nil
  then show ?case by simp
next
  case (Cons t p)
  then show ?case by (cases t) auto
qed

lemma scan_space_gap:
  assumes "starts_plain p" and "list_all is_space g" and "rest \<noteq> []"
  shows "scan (rx_rule p t) (g @ rest) = map Copy g @ scan (rx_rule p t) rest"
proof (rule scan_gap)
  fix i assume i: "i < length g"
  then obtain x xs where d: "drop i g = x # xs" by (cases "drop i g") simp_all
  then have "x \<in> set g" by (metis in_set_dropD list.set_intros(1))
  with assms(2) have "is_space x" by (simp add: list_all_iff)
  from starts_plain_no_match [OF assms(1) this] d
  show "rx_rule p t (drop i g @ rest) = None" by (simp add: rx_rule_def)
qed

lemma rx_rule_Nil:
  assumes "\<exists>t\<in>set p. consumes t"
  shows "rx_rule p t [] = None"
proof (cases "rx_rule p t []")
  case None
  then show ?thesis .
next
  case (Some mr)
  then obtain m r where "rx_rule p t [] = Some (m, r)" by (cases mr) simp
  from properD [OF proper_rx_rule [OF assms] this] show ?thesis by simp
qed

lemma scan_instance:
  assumes c: "\<exists>t\<in>set p. consumes t" and d: "delimited p" and r: "runs_ok p ws"
  shows "scan (rx_rule p t) (concat (fill p ws) @ rest)
       = Subst (concat (fill p ws)) (render t (groups p (fill p ws) None)) # scan (rx_rule p t) rest"
proof (rule scan_match [OF proper_rx_rule [OF c]])
  show "rx_rule p t (concat (fill p ws) @ rest)
      = Some (concat (fill p ws), render t (groups p (fill p ws) None))"
    using rx_match_fill [OF d r, of rest] by (simp add: rx_rule_def)
qed

lemma two_instances:
  assumes c: "\<exists>t\<in>set p. consumes t" and d: "delimited p" and sp: "starts_plain p"
    and r1: "runs_ok p ws1" and r2: "runs_ok p ws2" and g: "list_all is_space g"
  shows "scan (rx_rule p t) (concat (fill p ws1) @ g @ concat (fill p ws2) @ rest)
       = Subst (concat (fill p ws1)) (render t (groups p (fill p ws1) None)) # map Copy g
         @ Subst (concat (fill p ws2)) (render t (groups p (fill p ws2) None))
         # scan (rx_rule p t) rest"
proof -
  from starts_plain_fill [OF sp, of ws2] obtain x xs where "concat (fill p ws2) = x # xs"
    by blast
  then have ne: "concat (fill p ws2) @ rest \<noteq> []" by simp
  show ?thesis
    using scan_instance [OF c d r1, of t "g @ concat (fill p ws2) @ rest"]
      scan_space_gap [OF sp g ne, of t] scan_instance [OF c d r2, of t rest]
    by simp
qed

text \<open>
  Claim C6. Let \<open>p\<close> be a pattern that consumes a character and \<open>s\<close> any text. The walk of
  \<^verbatim>\<open>re.sub\<close> cuts \<open>s\<close> into copied characters and replaced stretches. The stretches,
  by their start and end offsets, come from left to right and do not overlap: each ends
  before the next begins. Each stretch is not empty, lies in the text and is the match of the
  pattern at its start. Every place where the pattern has a match lies in a replaced
  stretch, so a candidate that is not kept begins inside a kept match that begins further
  left, and the walk goes on behind the end of a kept match. Two constructs of the pattern
  with nothing but white space (or nothing at all) between them are both replaced, each by
  its own replacement, the second found in the source text behind the first.
\<close>

theorem leftmost_non_overlapping:
  assumes c: "\<exists>t\<in>set p. consumes t"
  shows "src (scan (rx_rule p t) s) = s
    \<and> sorted_wrt (\<lambda>x y. snd x \<le> fst y) (spans 0 (scan (rx_rule p t) s))
    \<and> (\<forall>(a, b)\<in>set (spans 0 (scan (rx_rule p t) s)). a < b \<and> b \<le> length s
          \<and> (\<exists>ws. rx_match p (drop a s) = Some ws \<and> b = a + length (concat ws)))
    \<and> (\<forall>i\<le>length s. rx_match p (drop i s) \<noteq> None \<longrightarrow>
          (\<exists>(a, b)\<in>set (spans 0 (scan (rx_rule p t) s)). a \<le> i \<and> i < b))
    \<and> (delimited p \<and> starts_plain p \<and> runs_ok p ws1 \<and> runs_ok p ws2 \<and> list_all is_space g \<longrightarrow>
          scan (rx_rule p t) (concat (fill p ws1) @ g @ concat (fill p ws2) @ rest)
          = Subst (concat (fill p ws1)) (render t (groups p (fill p ws1) None)) # map Copy g
            @ Subst (concat (fill p ws2)) (render t (groups p (fill p ws2) None))
            # scan (rx_rule p t) rest)"
proof -
  let ?M = "rx_rule p t"
  let ?ps = "scan ?M s"
  note pr = proper_rx_rule [OF c, of t]
  have src: "src ?ps = s" and sc: "scanned ?M ?ps"
    using sub_toks_src [OF c] by simp_all
  have sorted: "sorted_wrt (\<lambda>x y. snd x \<le> fst y) (spans 0 ?ps)"
    by (rule spans_sorted [OF pr sc])
  have each: "a < b \<and> b \<le> length s
      \<and> (\<exists>ws. rx_match p (drop a s) = Some ws \<and> b = a + length (concat ws))"
    if "(a, b) \<in> set (spans 0 ?ps)" for a b
  proof -
    from spans_bounds [OF pr sc that] src obtain m r where
      b: "a < b" "b \<le> length s" and m: "?M (drop a s) = Some (m, r)" "b = a + length m"
      by auto
    from m(1) obtain ws where "rx_match p (drop a s) = Some ws" "m = concat ws"
      by (auto simp: rx_rule_def split: option.splits)
    with b m(2) show ?thesis by simp
  qed
  have cover: "\<exists>(a, b)\<in>set (spans 0 ?ps). a \<le> i \<and> i < b"
    if "i \<le> length s" "rx_match p (drop i s) \<noteq> None" for i
  proof -
    from that(2) have "?M (drop i (src ?ps)) \<noteq> None"
      by (auto simp: rx_rule_def src split: option.splits)
    from spans_cover [OF pr sc _ this, of 0] that(1) src show ?thesis by simp
  qed
  from src sorted each cover two_instances [OF c, of ws1 ws2 g t rest]
  show ?thesis by blast
qed

text \<open>
  The theorem at the pattern of the body text call and the call written twice, on two
  lines: both calls are replaced and the line break between them is copied.
\<close>

theorem leftmost_non_overlapping_witness:
  "(\<exists>t\<in>set body_run_toks. consumes t)
   \<and> scan (rx_rule body_run_toks (map TChr body_run_out))
        (c2_body_call @ esc ''\<newline>'' @ c2_body_call)
     = [Subst c2_body_call body_run_out, Copy 10, Subst c2_body_call body_run_out]
   \<and> spans 0 (scan (rx_rule body_run_toks (map TChr body_run_out))
        (c2_body_call @ esc ''\<newline>'' @ c2_body_call))
     = [(0, length c2_body_call), (Suc (length c2_body_call), Suc (2 * length c2_body_call))]
   \<and> re_sub body_run_pattern body_run_repl (c2_body_call @ esc ''\<newline>'' @ c2_body_call)
     = Inr (body_run_out @ esc ''\<newline>'' @ body_run_out)"
proof -
  have nl: "esc ''\<newline>'' = [10]" "is_space 10" by (simp_all add: ev)
  have sp: "starts_plain body_run_toks" by (simp add: body_run_toks_def ev)
  note c = consuming(2)
  from leftmost_non_overlapping [OF c, of "map TChr body_run_out" _
      "[esc '' '', esc '' '', esc '' '']" "[esc '' '', esc '' '', esc '' '']" "[10]" "[]"]
    delimited_patterns(4) sp body_call_runs nl(2)
  have "scan (rx_rule body_run_toks (map TChr body_run_out)) (c2_body_call @ [10] @ c2_body_call)
     = [Subst c2_body_call body_run_out, Copy 10, Subst c2_body_call body_run_out]"
    by (simp add: render_chars rx_rule_Nil [OF c] scan_Nil [OF proper_rx_rule [OF c]])
  with c show ?thesis
    by (simp add: nl(1) body_run_sub sub_toks_def)
qed

section \<open>The routines and the file store\<close>

lemma mbox_chain:
  "\<exists>t1 t2 t3 t4.
     re_sub header_pattern header_repl t = Inr t1
     \<and> re_sub newline_run_pattern newline_run_repl t1 = Inr t2
     \<and> re_sub body_run_pattern body_run_repl t2 = Inr t3
     \<and> re_sub block_pattern mbox_block_repl t3 = Inr t4
     \<and> mbox_steps t = str_replace addr_clone_old addr_new (str_replace addr_ref_old addr_new t4)"
  by (simp add: header_sub newline_run_sub body_run_sub mbox_block_sub mbox_steps_def)

lemma msg_chain:
  "\<exists>t2 t3 t4.
     re_sub header_pattern header_repl (str_replace warn_import_old warn_import_new t) = Inr t2
     \<and> re_sub newline_run_pattern newline_run_repl t2 = Inr t3
     \<and> re_sub clone_run_pattern clone_run_repl t3 = Inr t4
     \<and> re_sub block_pattern msg_block_repl t4 = Inr (msg_steps t)"
  by (simp add: header_sub newline_run_sub clone_run_sub msg_block_sub msg_steps_def)

lemma vcf_chain:
  "\<exists>t1 t2 t3 t4.
     re_sub field_pattern header_repl t = Inr t1
     \<and> re_sub note_title_pattern note_title_repl t1 = Inr t2
     \<and> re_sub note_run_pattern note_run_repl t2 = Inr t3
     \<and> re_sub block_pattern vcf_block_repl t3 = Inr t4
     \<and> re_sub filter_pattern filter_repl t4 = Inr (vcf_steps t)"
  by (simp add: field_sub note_title_sub note_run_sub vcf_block_sub filter_sub vcf_steps_def)

lemma steps_encoded:
  assumes "read_text fault path w = Inr t"
  shows "\<exists>bs. utf8_encode (write_newlines e (mbox_steps t)) = Some bs"
    and "\<exists>bs. utf8_encode (write_newlines e (msg_steps t)) = Some bs"
    and "\<exists>bs. utf8_encode (write_newlines e (vcf_steps t)) = Some bs"
  using read_text_scalar [OF assms]
  by (simp_all add: utf8_encode_scalar write_newlines_scalar mbox_steps_scalar msg_steps_scalar
      vcf_steps_scalar)

lemma fix_mbox_run:
  assumes "read_text fault mbox_path w = Inr t"
  shows "\<exists>t1 t2 t3 t4 bs.
     re_sub header_pattern header_repl t = Inr t1
     \<and> re_sub newline_run_pattern newline_run_repl t1 = Inr t2
     \<and> re_sub body_run_pattern body_run_repl t2 = Inr t3
     \<and> re_sub block_pattern mbox_block_repl t3 = Inr t4
     \<and> utf8_encode (write_newlines e
           (str_replace addr_clone_old addr_new (str_replace addr_ref_old addr_new t4))) = Some bs
     \<and> fix_mbox e fault w = ending mbox_path ''Fixed mbox.rs'' fault bs w"
proof -
  from mbox_chain [of t] obtain t1 t2 t3 t4 where c:
    "re_sub header_pattern header_repl t = Inr t1"
    "re_sub newline_run_pattern newline_run_repl t1 = Inr t2"
    "re_sub body_run_pattern body_run_repl t2 = Inr t3"
    "re_sub block_pattern mbox_block_repl t3 = Inr t4"
    "mbox_steps t = str_replace addr_clone_old addr_new (str_replace addr_ref_old addr_new t4)"
    by blast
  from steps_encoded(1) [OF assms] obtain bs where
    bs: "utf8_encode (write_newlines e (mbox_steps t)) = Some bs" by blast
  from fix_file_writes [where tr = fix_mbox_text, OF assms fix_mbox_text_steps bs]
  have "fix_mbox e fault w = ending mbox_path ''Fixed mbox.rs'' fault bs w"
    using assms by (auto simp: fix_mbox_def ending_def read_text_def split: option.splits fault.splits)
  with c bs show ?thesis by auto
qed

lemma fix_msg_run:
  assumes "read_text fault msg_path w = Inr t"
  shows "\<exists>t2 t3 t4 t5 bs.
     re_sub header_pattern header_repl (str_replace warn_import_old warn_import_new t) = Inr t2
     \<and> re_sub newline_run_pattern newline_run_repl t2 = Inr t3
     \<and> re_sub clone_run_pattern clone_run_repl t3 = Inr t4
     \<and> re_sub block_pattern msg_block_repl t4 = Inr t5
     \<and> utf8_encode (write_newlines e t5) = Some bs
     \<and> fix_msg e fault w = ending msg_path ''Fixed msg.rs'' fault bs w"
proof -
  from msg_chain [of t] obtain t2 t3 t4 where c:
    "re_sub header_pattern header_repl (str_replace warn_import_old warn_import_new t) = Inr t2"
    "re_sub newline_run_pattern newline_run_repl t2 = Inr t3"
    "re_sub clone_run_pattern clone_run_repl t3 = Inr t4"
    "re_sub block_pattern msg_block_repl t4 = Inr (msg_steps t)"
    by blast
  from steps_encoded(2) [OF assms] obtain bs where
    bs: "utf8_encode (write_newlines e (msg_steps t)) = Some bs" by blast
  from fix_file_writes [where tr = fix_msg_text, OF assms fix_msg_text_steps bs]
  have "fix_msg e fault w = ending msg_path ''Fixed msg.rs'' fault bs w"
    using assms by (auto simp: fix_msg_def ending_def read_text_def split: option.splits fault.splits)
  with c bs show ?thesis by auto
qed

lemma fix_vcf_run:
  assumes "read_text fault vcf_path w = Inr t"
  shows "\<exists>t1 t2 t3 t4 t5 bs.
     re_sub field_pattern header_repl t = Inr t1
     \<and> re_sub note_title_pattern note_title_repl t1 = Inr t2
     \<and> re_sub note_run_pattern note_run_repl t2 = Inr t3
     \<and> re_sub block_pattern vcf_block_repl t3 = Inr t4
     \<and> re_sub filter_pattern filter_repl t4 = Inr t5
     \<and> utf8_encode (write_newlines e t5) = Some bs
     \<and> fix_vcf e fault w = ending vcf_path ''Fixed vcf.rs'' fault bs w"
proof -
  from vcf_chain [of t] obtain t1 t2 t3 t4 where c:
    "re_sub field_pattern header_repl t = Inr t1"
    "re_sub note_title_pattern note_title_repl t1 = Inr t2"
    "re_sub note_run_pattern note_run_repl t2 = Inr t3"
    "re_sub block_pattern vcf_block_repl t3 = Inr t4"
    "re_sub filter_pattern filter_repl t4 = Inr (vcf_steps t)"
    by blast
  from steps_encoded(3) [OF assms] obtain bs where
    bs: "utf8_encode (write_newlines e (vcf_steps t)) = Some bs" by blast
  from fix_file_writes [where tr = fix_vcf_text, OF assms fix_vcf_text_steps bs]
  have "fix_vcf e fault w = ending vcf_path ''Fixed vcf.rs'' fault bs w"
    using assms by (auto simp: fix_vcf_def ending_def read_text_def split: option.splits fault.splits)
  with c bs show ?thesis by auto
qed

lemma ascii_texts:
  "list_all (\<lambda>c. c < 128) addr_line" "list_all (\<lambda>c. c < 128) addr_line_fixed"
  "13 \<notin> set addr_line"
  by (simp_all add: addr_line_def addr_line_fixed_def ev)

lemma world_a_read: "fault \<noteq> Some Read_fails \<Longrightarrow> read_text fault mbox_path world_a = Inr addr_line"
  by (simp add: read_text_def world_a_def mbox_path_def utf8_decode_ascii ascii_texts
      universal_newlines_id)

lemma world_a_run:
  "fault \<noteq> Some Read_fails \<Longrightarrow>
     fix_mbox LF fault world_a = ending mbox_path ''Fixed mbox.rs'' fault addr_line_fixed world_a"
proof -
  assume f: "fault \<noteq> Some Read_fails"
  have "utf8_encode (write_newlines LF addr_line_fixed) = Some addr_line_fixed"
    by (simp add: write_newlines_LF utf8_encode_ascii ascii_texts)
  from fix_file_writes [where tr = fix_mbox_text, OF world_a_read [OF f] addr_line_fixed this] f
  show ?thesis by (auto simp: fix_mbox_def ending_def split: option.splits fault.splits)
qed

lemma cut_differs:
  "take 8 addr_line_fixed = esc ''let x = ''" "esc ''let x = '' \<noteq> addr_line"
  "esc ''let x = '' \<noteq> addr_line_fixed"
  by (simp_all add: addr_line_def addr_line_fixed_def ev)

text \<open>
  Claim C9, as the code has it. A routine that cannot read its file, or cannot decode it,
  ends with that exception and leaves the file store as it was. Otherwise it applies every
  rule, in the order of the script, to the text it has read, and only then opens the file
  for writing: the bytes \<open>bs\<close> it has to write are the encoding of the text after the last
  rule. What the file holds afterwards is decided by the fault (\<open>ending\<close>): all of \<open>bs\<close>
  when nothing fails; what it held before when the file cannot be opened for writing; and
  the first \<open>k\<close> bytes of \<open>bs\<close> when writing fails after \<open>k\<close> bytes. So every byte that
  reaches the file belongs to the fully transformed text, but the write is not atomic: after
  a failed write the former content of the file is gone and the file holds an initial part
  of the new content only.
\<close>

theorem routine_outcomes:
  "(read_text fault mbox_path w = Inl err \<longrightarrow> fix_mbox e fault w = (Some err, w))
   \<and> (read_text fault mbox_path w = Inr t \<longrightarrow>
        (\<exists>t1 t2 t3 t4 bs.
           re_sub header_pattern header_repl t = Inr t1
           \<and> re_sub newline_run_pattern newline_run_repl t1 = Inr t2
           \<and> re_sub body_run_pattern body_run_repl t2 = Inr t3
           \<and> re_sub block_pattern mbox_block_repl t3 = Inr t4
           \<and> utf8_encode (write_newlines e
                 (str_replace addr_clone_old addr_new (str_replace addr_ref_old addr_new t4)))
               = Some bs
           \<and> fix_mbox e fault w = ending mbox_path ''Fixed mbox.rs'' fault bs w))
   \<and> (read_text fault msg_path w = Inl err \<longrightarrow> fix_msg e fault w = (Some err, w))
   \<and> (read_text fault msg_path w = Inr t \<longrightarrow>
        (\<exists>t2 t3 t4 t5 bs.
           re_sub header_pattern header_repl (str_replace warn_import_old warn_import_new t) = Inr t2
           \<and> re_sub newline_run_pattern newline_run_repl t2 = Inr t3
           \<and> re_sub clone_run_pattern clone_run_repl t3 = Inr t4
           \<and> re_sub block_pattern msg_block_repl t4 = Inr t5
           \<and> utf8_encode (write_newlines e t5) = Some bs
           \<and> fix_msg e fault w = ending msg_path ''Fixed msg.rs'' fault bs w))
   \<and> (read_text fault vcf_path w = Inl err \<longrightarrow> fix_vcf e fault w = (Some err, w))
   \<and> (read_text fault vcf_path w = Inr t \<longrightarrow>
        (\<exists>t1 t2 t3 t4 t5 bs.
           re_sub field_pattern header_repl t = Inr t1
           \<and> re_sub note_title_pattern note_title_repl t1 = Inr t2
           \<and> re_sub note_run_pattern note_run_repl t2 = Inr t3
           \<and> re_sub block_pattern vcf_block_repl t3 = Inr t4
           \<and> re_sub filter_pattern filter_repl t4 = Inr t5
           \<and> utf8_encode (write_newlines e t5) = Some bs
           \<and> fix_vcf e fault w = ending vcf_path ''Fixed vcf.rs'' fault bs w))"
proof (intro conjI impI)
  assume "read_text fault mbox_path w = Inl err"
  then show "fix_mbox e fault w = (Some err, w)"
    by (simp add: fix_mbox_def fix_file_read_fails)
next
  assume "read_text fault msg_path w = Inl err"
  then show "fix_msg e fault w = (Some err, w)"
    by (simp add: fix_msg_def fix_file_read_fails)
next
  assume "read_text fault vcf_path w = Inl err"
  then show "fix_vcf e fault w = (Some err, w)"
    by (simp add: fix_vcf_def fix_file_read_fails)
qed (rule fix_mbox_run fix_msg_run fix_vcf_run, assumption)+

text \<open>
  The theorem at a file store whose \<^verbatim>\<open>mbox.rs\<close> is a line with the second old address
  expression and which has no \<^verbatim>\<open>msg.rs\<close>: with a write that fails after eight bytes, and
  with no fault.
\<close>

theorem routine_outcomes_witness:
  "read_text (Some (Write_fails 8)) mbox_path world_a = Inr addr_line
   \<and> fix_mbox LF (Some (Write_fails 8)) world_a
     = (Some Os_error, world_a\<lparr>files := (files world_a)(mbox_path \<mapsto> take 8 addr_line_fixed)\<rparr>)
   \<and> read_text None mbox_path world_a = Inr addr_line
   \<and> fix_mbox LF None world_a
     = (None, world_a\<lparr>files := (files world_a)(mbox_path \<mapsto> addr_line_fixed),
                      printed := [''Fixed mbox.rs'']\<rparr>)
   \<and> read_text None msg_path world_a = Inl File_not_found
   \<and> fix_msg LF None world_a = (Some File_not_found, world_a)"
proof -
  have r: "read_text (Some (Write_fails 8)) mbox_path world_a = Inr addr_line"
    "read_text None mbox_path world_a = Inr addr_line"
    by (simp_all add: world_a_read)
  have m: "read_text None msg_path world_a = Inl File_not_found"
    by (simp add: read_text_def world_a_def mbox_path_def msg_path_def)
  have s: "re_sub header_pattern header_repl addr_line = Inr addr_line"
    "re_sub newline_run_pattern newline_run_repl addr_line = Inr addr_line"
    "re_sub body_run_pattern body_run_repl addr_line = Inr addr_line"
    "re_sub block_pattern mbox_block_repl addr_line = Inr addr_line"
    by (simp_all add: header_sub newline_run_sub body_run_sub mbox_block_sub sub_toks_id
        addr_line_searches)
  have a: "str_replace addr_clone_old addr_new (str_replace addr_ref_old addr_new addr_line)
      = addr_line_fixed"
    using addr_line_fixed by (simp add: fix_mbox_text_eq sub_toks_id addr_line_searches)
  have e: "utf8_encode (write_newlines LF addr_line_fixed) = Some addr_line_fixed"
    by (simp add: write_newlines_LF utf8_encode_ascii ascii_texts)
  have p: "printed world_a = []" by (simp add: world_a_def)
  from routine_outcomes [of "Some (Write_fails 8)" world_a _ LF addr_line]
    routine_outcomes [of None world_a File_not_found LF addr_line] r m
  show ?thesis by (auto simp: s a e p ending_def)
qed

text \<open>
  Claim C9 as the specification words it excludes that a failed write leaves a file that is
  neither the old nor the new one. With a write that fails after eight bytes the file holds
  the eight bytes \<^verbatim>\<open>let x = \<close>: not what it held before, and not the transformed text.
\<close>

theorem failed_write_counterexample:
  "files world_a mbox_path = Some addr_line
   \<and> fix_mbox LF (Some (Write_fails 8)) world_a
     = (Some Os_error, world_a\<lparr>files := (files world_a)(mbox_path \<mapsto> esc ''let x = '')\<rparr>)
   \<and> esc ''let x = '' \<noteq> addr_line
   \<and> esc ''let x = '' \<noteq> addr_line_fixed"
  using world_a_run [of "Some (Write_fails 8)"]
  by (simp add: ending_def cut_differs world_a_def mbox_path_def)

end
